theory Spec2Isabelle
  imports Complex_Main "HOL-Library.AList" "HOL-Library.Multiset" "HOL-Library.Word"
    "HOL-Library.List_Lexorder"
begin

chapter \<open>The program\<close>

section \<open>JavaScript values\<close>

text \<open>
  A JavaScript string is a list of 16-bit code units; \<^verbatim>\<open>length\<close>, \<^verbatim>\<open>slice\<close> and the
  regular expressions of the chunker count and match code units. The strings a program is
  given (ids, titles, texts, model names) are of this type; the names of message types and
  the texts of error messages, which the program writes itself, are plain strings.
\<close>

type_synonym jsstring = "16 word list"

definition js :: "string \<Rightarrow> jsstring" where
  "js s = map (\<lambda>c. of_nat (of_char c)) s"

text \<open>
  A JavaScript number is a double: a real, one of the two infinities, or \<^verbatim>\<open>NaN\<close>. The two
  zeros are one value here. Arithmetic rounds its exact result: \<open>rnd\<close> rounds a real to the
  nearest double as if the exponent had no upper bound, \<open>f32\<close> does the same for singles (the
  element type of \<^verbatim>\<open>Float32Array\<close>), and a rounded value beyond the largest double, or
  single, is an infinity.
\<close>

datatype number = Num real | Infinity | NegInfinity | NaN

record rounding =
  rnd :: "real \<Rightarrow> real"
  f32 :: "real \<Rightarrow> real"

definition exact :: rounding where
  "exact = \<lparr> rnd = (\<lambda>x. x), f32 = (\<lambda>x. x) \<rparr>"

definition maxDouble :: real where
  "maxDouble = (2 ^ 53 - 1) * 2 ^ 971"

definition maxSingle :: real where
  "maxSingle = (2 ^ 24 - 1) * 2 ^ 104"

definition overflow :: "real \<Rightarrow> real \<Rightarrow> number" where
  "overflow largest r =
     (if largest < r then Infinity else if r < - largest then NegInfinity else Num r)"

definition toDouble :: "rounding \<Rightarrow> real \<Rightarrow> number" where
  "toDouble rd x = overflow maxDouble (rnd rd x)"

text \<open>The conversion of a number to an element of a \<^verbatim>\<open>Float32Array\<close>.\<close>

definition toSingle :: "rounding \<Rightarrow> number \<Rightarrow> number" where
  "toSingle rd v = (case v of Num x \<Rightarrow> overflow maxSingle (f32 rd x) | _ \<Rightarrow> v)"

text \<open>\<^verbatim>\<open>ToNumber\<close> of what an array read gives: \<^verbatim>\<open>undefined\<close> is \<^verbatim>\<open>NaN\<close>.\<close>

definition toNumber :: "number option \<Rightarrow> number" where
  "toNumber v = (case v of None \<Rightarrow> NaN | Some x \<Rightarrow> x)"

fun negative :: "number \<Rightarrow> bool" where
  "negative (Num x) = (x < 0)"
| "negative NegInfinity = True"
| "negative v = False"

fun positive :: "number \<Rightarrow> bool" where
  "positive (Num x) = (0 < x)"
| "positive Infinity = True"
| "positive v = False"

definition infinityOf :: "bool \<Rightarrow> number" where
  "infinityOf isNegative = (if isNegative then NegInfinity else Infinity)"

fun jsadd :: "rounding \<Rightarrow> number \<Rightarrow> number \<Rightarrow> number" where
  "jsadd rd (Num x) (Num y) = toDouble rd (x + y)"
| "jsadd rd NaN b = NaN"
| "jsadd rd a NaN = NaN"
| "jsadd rd Infinity NegInfinity = NaN"
| "jsadd rd NegInfinity Infinity = NaN"
| "jsadd rd Infinity b = Infinity"
| "jsadd rd a Infinity = Infinity"
| "jsadd rd NegInfinity b = NegInfinity"
| "jsadd rd a NegInfinity = NegInfinity"

fun jsneg :: "number \<Rightarrow> number" where
  "jsneg (Num x) = Num (- x)"
| "jsneg Infinity = NegInfinity"
| "jsneg NegInfinity = Infinity"
| "jsneg NaN = NaN"

definition jssub :: "rounding \<Rightarrow> number \<Rightarrow> number \<Rightarrow> number" where
  "jssub rd a b = jsadd rd a (jsneg b)"

fun jsmul :: "rounding \<Rightarrow> number \<Rightarrow> number \<Rightarrow> number" where
  "jsmul rd (Num x) (Num y) = toDouble rd (x * y)"
| "jsmul rd NaN b = NaN"
| "jsmul rd a NaN = NaN"
| "jsmul rd a b =
     (if a = Num 0 \<or> b = Num 0 then NaN else infinityOf (negative a \<noteq> negative b))"

text \<open>
  A zero divisor is taken as \<open>+0\<close>. The one division of the program, in \<^verbatim>\<open>SEARCH\<close>, has a
  divisor that is never a zero.
\<close>

fun jsdiv :: "rounding \<Rightarrow> number \<Rightarrow> number \<Rightarrow> number" where
  "jsdiv rd NaN b = NaN"
| "jsdiv rd a NaN = NaN"
| "jsdiv rd (Num x) (Num y) =
     (if y = 0 then (if x = 0 then NaN else infinityOf (x < 0)) else toDouble rd (x / y))"
| "jsdiv rd (Num x) b = Num 0"
| "jsdiv rd a (Num y) = infinityOf (negative a \<noteq> (y < 0))"
| "jsdiv rd a b = NaN"

fun jssqrt :: "rounding \<Rightarrow> number \<Rightarrow> number" where
  "jssqrt rd (Num x) = (if x < 0 then NaN else toDouble rd (sqrt x))"
| "jssqrt rd Infinity = Infinity"
| "jssqrt rd a = NaN"

text \<open>\<^verbatim>\<open>ToIntegerOrInfinity\<close> of a finite number: truncation towards zero.\<close>

definition jsTruncate :: "real \<Rightarrow> int" where
  "jsTruncate x = (if 0 \<le> x then \<lfloor>x\<rfloor> else \<lceil>x\<rceil>)"

text \<open>An array read: \<^verbatim>\<open>undefined\<close> out of range.\<close>

definition nth_opt :: "'a list \<Rightarrow> nat \<Rightarrow> 'a option" where
  "nth_opt xs i = (if i < length xs then Some (xs ! i) else None)"

text \<open>Decimal rendering of a natural number, as in a template literal.\<close>

fun decimal :: "nat \<Rightarrow> string" where
  "decimal n =
     (if n < 10 then [''0123456789'' ! n]
      else decimal (n div 10) @ [''0123456789'' ! (n mod 10)])"

declare decimal.simps [simp del]

text \<open>\<^verbatim>\<open>s.slice(start, end)\<close> for integers: a negative index counts from the end.\<close>

definition jsSlice :: "'a list \<Rightarrow> int \<Rightarrow> int \<Rightarrow> 'a list" where
  "jsSlice s start end =
     (let len = int (length s);
          from = (if start < 0 then max (len + start) 0 else min start len);
          to = (if end < 0 then max (len + end) 0 else min end len)
      in take (nat (to - from)) (drop (nat from) s))"

text \<open>
  \<^verbatim>\<open>xs.slice(0, end)\<close>: \<open>end\<close> is made an integer or an infinity (\<^verbatim>\<open>NaN\<close> counts as 0), and a
  negative end counts from the back.
\<close>

definition slice0 :: "'a list \<Rightarrow> number \<Rightarrow> 'a list" where
  "slice0 xs end =
     (let n = int (length xs);
          final = (case end of
                     NaN \<Rightarrow> 0
                   | Infinity \<Rightarrow> n
                   | NegInfinity \<Rightarrow> 0
                   | Num x \<Rightarrow>
                       if jsTruncate x < 0 then max (n + jsTruncate x) 0
                       else min (jsTruncate x) n)
      in take (nat final) xs)"

text \<open>
  \<^verbatim>\<open>TypedArray.prototype.set\<close> throws a \<^verbatim>\<open>RangeError\<close> when the source does not fit at the
  offset; the text of its message is the engine's (this is V8's). The handler's
  \<^verbatim>\<open>catch\<close> replies with it.
\<close>

definition rangeErrorMessage :: string where
  "rangeErrorMessage = ''offset is out of bounds''"

definition typedArraySet :: "'a list \<Rightarrow> 'a list \<Rightarrow> nat \<Rightarrow> 'a list option" where
  "typedArraySet target source offset =
     (if offset + length source \<le> length target
      then Some (take offset target @ source @ drop (offset + length source) target)
      else None)"

section \<open>Task channel client (src/lib/workerClient.ts)\<close>

text \<open>
  The class \<^verbatim>\<open>WorkerClient\<close> is embedded as a record of its private fields together with
  two observation lists: \<open>posted\<close>, the messages handed to \<^verbatim>\<open>worker.postMessage\<close> in
  order, and \<open>settled\<close>, the promises of \<^verbatim>\<open>request\<close> that were resolved or rejected, in
  order. Every method and every callback (\<^verbatim>\<open>onmessage\<close>, \<^verbatim>\<open>onerror\<close>, the timer
  callback of \<^verbatim>\<open>request\<close>) is a function from state to state. JavaScript runs each of
  them to completion, so an interleaving is a list of events.
\<close>

text \<open>Correlation ids: \<^verbatim>\<open>fire_<n>\<close>, \<^verbatim>\<open>req_<n>_<Date.now()>\<close>, or any other string a worker may echo.\<close>

datatype msg_id = FireId nat | ReqId nat int | OtherId string

record 'p WorkerMessage =
  msg_id :: msg_id
  msg_type :: string
  msg_payload :: 'p

record 'r WorkerResponse =
  resp_id :: msg_id
  resp_type :: string
  resp_payload :: 'r
  resp_error :: "string option"

text \<open>
  A pending request holds the two continuations of its promise and its timer. The promise is
  identified by the request id; the entry keeps what the timer closure captured: the message
  type and the delay the timer was armed with.
\<close>

record PendingRequest =
  req_type :: string
  req_delay :: int

datatype 'r settlement = Resolved 'r | Rejected string

record ('p, 'r) WorkerClient =
  pending :: "(msg_id \<times> PendingRequest) list"
  idCounter :: nat
  defaultTimeout :: int
  queue :: "(string \<times> 'p) list"
  inFlight :: int
  maxConcurrent :: int
  posted :: "'p WorkerMessage list"
  settled :: "(msg_id \<times> 'r settlement) list"
  terminated :: bool

text \<open>The constructor: \<^verbatim>\<open>options?.timeout ?? 30000\<close>, \<^verbatim>\<open>options?.maxConcurrent ?? 10\<close>.\<close>

definition newClient :: "int option \<Rightarrow> int option \<Rightarrow> ('p, 'r) WorkerClient" where
  "newClient timeout_opt maxConcurrent_opt =
     \<lparr> pending = [], idCounter = 0,
       defaultTimeout = (case timeout_opt of None \<Rightarrow> 30000 | Some t \<Rightarrow> t),
       queue = [], inFlight = 0,
       maxConcurrent = (case maxConcurrent_opt of None \<Rightarrow> 10 | Some m \<Rightarrow> m),
       posted = [], settled = [], terminated = False \<rparr>"

definition sendImmediate :: "string \<Rightarrow> 'p \<Rightarrow> ('p, 'r) WorkerClient \<Rightarrow> ('p, 'r) WorkerClient" where
  "sendImmediate ty pl s =
     (let n = Suc (idCounter s);
          message = \<lparr> msg_id = FireId n, msg_type = ty, msg_payload = pl \<rparr>
      in s\<lparr> idCounter := n, inFlight := inFlight s + 1, posted := posted s @ [message] \<rparr>)"

text \<open>
  \<^verbatim>\<open>while (this.queue.length > 0 && this.inFlight < this.maxConcurrent)\<close>: each round
  shifts the head of the queue and sends it.
\<close>

function processQueue :: "('p, 'r) WorkerClient \<Rightarrow> ('p, 'r) WorkerClient" where
  "processQueue s =
     (case queue s of
        [] \<Rightarrow> s
      | item # rest \<Rightarrow>
          if inFlight s < maxConcurrent s
          then processQueue (sendImmediate (fst item) (snd item) (s\<lparr> queue := rest \<rparr>))
          else s)"
  by pat_completeness auto
termination
  by (relation "measure (\<lambda>s. length (queue s))") (auto simp: sendImmediate_def Let_def)

declare processQueue.simps [simp del]

text \<open>
  \<^verbatim>\<open>request\<close>: the promise executor runs synchronously. \<open>now\<close> is the value of
  \<^verbatim>\<open>Date.now()\<close>; \<open>timeout_opt\<close> is \<^verbatim>\<open>options?.timeout\<close>.
\<close>

definition request ::
  "string \<Rightarrow> 'p \<Rightarrow> int option \<Rightarrow> int \<Rightarrow> ('p, 'r) WorkerClient \<Rightarrow> ('p, 'r) WorkerClient" where
  "request ty pl timeout_opt now s =
     (let n = Suc (idCounter s);
          i = ReqId n now;
          timeout = (case timeout_opt of None \<Rightarrow> defaultTimeout s | Some t \<Rightarrow> t);
          message = \<lparr> msg_id = i, msg_type = ty, msg_payload = pl \<rparr>
      in s\<lparr> idCounter := n,
            pending := AList.update i \<lparr> req_type = ty, req_delay = timeout \<rparr> (pending s),
            inFlight := inFlight s + 1,
            posted := posted s @ [message] \<rparr>)"

text \<open>The id that \<^verbatim>\<open>request\<close> generates in state \<open>s\<close>.\<close>

definition nextRequestId :: "('p, 'r) WorkerClient \<Rightarrow> int \<Rightarrow> msg_id" where
  "nextRequestId s now = ReqId (Suc (idCounter s)) now"

definition send :: "string \<Rightarrow> 'p \<Rightarrow> ('p, 'r) WorkerClient \<Rightarrow> ('p, 'r) WorkerClient" where
  "send ty pl s =
     (if inFlight s < maxConcurrent s then sendImmediate ty pl s
      else s\<lparr> queue := queue s @ [(ty, pl)] \<rparr>)"

text \<open>
  The timer callback armed by \<^verbatim>\<open>request\<close>. Every path that removes the pending entry
  of a request also clears its timer (\<^verbatim>\<open>onmessage\<close>, \<^verbatim>\<open>onerror\<close>, \<^verbatim>\<open>terminate\<close>), and
  the callback removes the entry itself, so the timer of \<open>i\<close> can fire exactly while \<open>i\<close> is
  pending; otherwise nothing runs.
\<close>

definition timerFires :: "msg_id \<Rightarrow> ('p, 'r) WorkerClient \<Rightarrow> ('p, 'r) WorkerClient" where
  "timerFires i s =
     (case map_of (pending s) i of
        None \<Rightarrow> s
      | Some p \<Rightarrow>
          let s1 = s\<lparr> pending := AList.delete i (pending s) \<rparr>;
              s2 = s1\<lparr> inFlight := max 0 (inFlight s1 - 1) \<rparr>;
              s3 = processQueue s2
          in s3\<lparr> settled := settled s3 @
                    [(i, Rejected (''Worker request timeout: '' @ req_type p))] \<rparr>)"

text \<open>\<^verbatim>\<open>worker.onmessage\<close>; \<^verbatim>\<open>if (error)\<close> is true for a non-empty string.\<close>

definition onmessage :: "'r WorkerResponse \<Rightarrow> ('p, 'r) WorkerClient \<Rightarrow> ('p, 'r) WorkerClient" where
  "onmessage e s =
     (case map_of (pending s) (resp_id e) of
        None \<Rightarrow> processQueue (s\<lparr> inFlight := max 0 (inFlight s - 1) \<rparr>)
      | Some p \<Rightarrow>
          let s1 = s\<lparr> pending := AList.delete (resp_id e) (pending s) \<rparr>;
              s2 = s1\<lparr> inFlight := max 0 (inFlight s1 - 1) \<rparr>;
              s3 = processQueue s2;
              outcome = (case resp_error e of
                           None \<Rightarrow> Resolved (resp_payload e)
                         | Some err \<Rightarrow> if err \<noteq> [] then Rejected err
                                       else Resolved (resp_payload e))
          in s3\<lparr> settled := settled s3 @ [(resp_id e, outcome)] \<rparr>)"

text \<open>\<^verbatim>\<open>worker.onerror\<close>: every pending request is rejected, in the map's insertion order.\<close>

definition onerror :: "('p, 'r) WorkerClient \<Rightarrow> ('p, 'r) WorkerClient" where
  "onerror s =
     s\<lparr> settled := settled s @ map (\<lambda>(i, p). (i, Rejected ''Worker crashed'')) (pending s),
        pending := [], inFlight := 0, queue := [] \<rparr>"

definition terminate :: "('p, 'r) WorkerClient \<Rightarrow> ('p, 'r) WorkerClient" where
  "terminate s =
     s\<lparr> settled := settled s @ map (\<lambda>(i, p). (i, Rejected ''Worker terminated'')) (pending s),
        pending := [], queue := [], inFlight := 0, terminated := True \<rparr>"

definition getQueueStatus :: "('p, 'r) WorkerClient \<Rightarrow> int \<times> nat" where
  "getQueueStatus s = (inFlight s, length (queue s))"

text \<open>What can happen to a client, and a run of the client over a list of such events.\<close>

datatype ('p, 'r) event =
    Send string 'p
  | Request string 'p "int option" int
  | Response "'r WorkerResponse"
  | TimerFires msg_id
  | WorkerError
  | Terminate

fun step :: "('p, 'r) WorkerClient \<Rightarrow> ('p, 'r) event \<Rightarrow> ('p, 'r) WorkerClient" where
  "step s (Send ty pl) = send ty pl s"
| "step s (Request ty pl topt now) = request ty pl topt now s"
| "step s (Response e) = onmessage e s"
| "step s (TimerFires i) = timerFires i s"
| "step s WorkerError = onerror s"
| "step s Terminate = terminate s"

definition run :: "('p, 'r) WorkerClient \<Rightarrow> ('p, 'r) event list \<Rightarrow> ('p, 'r) WorkerClient" where
  "run s evs = foldl step s evs"

fun is_request :: "('p, 'r) event \<Rightarrow> bool" where
  "is_request (Request ty pl topt now) = True"
| "is_request _ = False"

fun is_reset :: "('p, 'r) event \<Rightarrow> bool" where
  "is_reset WorkerError = True"
| "is_reset Terminate = True"
| "is_reset _ = False"

text \<open>The fire-and-forget items of a list of events, and of a list of posted messages.\<close>

fun sends_of :: "('p, 'r) event list \<Rightarrow> (string \<times> 'p) list" where
  "sends_of [] = []"
| "sends_of (Send ty pl # evs) = (ty, pl) # sends_of evs"
| "sends_of (_ # evs) = sends_of evs"

fun is_fire :: "'p WorkerMessage \<Rightarrow> bool" where
  "is_fire m = (case msg_id m of FireId n \<Rightarrow> True | _ \<Rightarrow> False)"

definition fired :: "('p, 'r) WorkerClient \<Rightarrow> (string \<times> 'p) list" where
  "fired s = map (\<lambda>m. (msg_type m, msg_payload m)) (filter is_fire (posted s))"

text \<open>The backpressure invariant, as a predicate on states.\<close>

definition backpressure_ok :: "('p, 'r) WorkerClient \<Rightarrow> bool" where
  "backpressure_ok s = (queue s \<noteq> [] \<longrightarrow> \<not> inFlight s < maxConcurrent s)"

text \<open>How many queued sends one call of \<open>processQueue\<close> dispatches.\<close>

definition dispatchCount :: "('p, 'r) WorkerClient \<Rightarrow> nat" where
  "dispatchCount s = min (length (queue s)) (nat (maxConcurrent s - inFlight s))"

text \<open>Three sends against a cap of two: the third one waits.\<close>

definition threeSends :: "(nat, unit) event list" where
  "threeSends = [Send ''INDEX_CHUNK'' 1, Send ''INDEX_CHUNK'' 2, Send ''INDEX_CHUNK'' 3]"

text \<open>Eleven requests against the default cap of ten.\<close>

definition elevenRequests :: "(nat, unit) event list" where
  "elevenRequests = map (\<lambda>n. Request ''SEARCH'' n None 0) [0..<11]"

section \<open>Vector index worker (workers/rag.worker.ts)\<close>

text \<open>The module state: \<^verbatim>\<open>vectors\<close>, \<^verbatim>\<open>ids\<close>, \<^verbatim>\<open>dimension\<close>, \<^verbatim>\<open>count\<close>.\<close>

record RagState =
  vectors :: "number list option"
  ids :: "jsstring list"
  dimension :: nat
  count :: nat

definition initialRag :: RagState where
  "initialRag = \<lparr> vectors = None, ids = [], dimension = 0, count = 0 \<rparr>"

text \<open>A message is its id and, by its \<^verbatim>\<open>type\<close>, the payload the handler reads.\<close>

datatype RagRequest =
    INDEX_CHUNK jsstring jsstring "number list"
  | SEARCH "number list" number
  | CLEAR
  | UnknownType string

datatype ReplyPayload =
    SearchResults "(jsstring option \<times> number) list"
  | ClearSuccess bool
  | NullPayload

definition reply :: "msg_id \<Rightarrow> string \<Rightarrow> ReplyPayload \<Rightarrow> ReplyPayload WorkerResponse" where
  "reply i ty pl = \<lparr> resp_id = i, resp_type = ty, resp_payload = pl, resp_error = None \<rparr>"

definition replyError :: "msg_id \<Rightarrow> string \<Rightarrow> ReplyPayload WorkerResponse" where
  "replyError i message =
     \<lparr> resp_id = i, resp_type = ''ERROR'', resp_payload = NullPayload,
       resp_error = Some message \<rparr>"

text \<open>
  The \<^verbatim>\<open>INDEX_CHUNK\<close> case. A new \<^verbatim>\<open>Float32Array\<close> is filled with zeros, and what is
  stored in one is converted to a single.
\<close>

definition indexChunk ::
  "rounding \<Rightarrow> RagState \<Rightarrow> msg_id \<Rightarrow> jsstring \<Rightarrow> number list
     \<Rightarrow> RagState \<times> ReplyPayload WorkerResponse list" where
  "indexChunk rd s i chunkId embedding =
     (let dim = length embedding;
          s1 = (if dimension s = 0 then s\<lparr> dimension := dim \<rparr> else s)
      in if dim \<noteq> dimension s1
         then (s1, [replyError i (''Dimension mismatch: expected '' @ decimal (dimension s1)
                                   @ '', got '' @ decimal dim)])
         else
           let grown =
                 (case vectors s1 of
                    None \<Rightarrow>
                      Some (replicate (max 1000 (count s1 + 500) * dimension s1) (Num 0))
                  | Some old \<Rightarrow>
                      if count s1 * dimension s1 \<ge> length old
                      then typedArraySet
                             (replicate (max 1000 (count s1 + 500) * dimension s1) (Num 0)) old 0
                      else Some old)
           in case grown of
                None \<Rightarrow> (s1, [replyError i rangeErrorMessage])
              | Some buf \<Rightarrow>
                  let s2 = s1\<lparr> vectors := Some buf \<rparr> in
                  (case typedArraySet buf (map (toSingle rd) embedding)
                          (count s2 * dimension s2) of
                     None \<Rightarrow> (s2, [replyError i rangeErrorMessage])
                   | Some buf' \<Rightarrow>
                       (s2\<lparr> vectors := Some buf', ids := ids s2 @ [chunkId],
                            count := count s2 + 1 \<rparr>, [])))"

text \<open>
  The inner loop of \<^verbatim>\<open>SEARCH\<close>: one round for each \<open>j\<close> below \<^verbatim>\<open>dimension\<close>. A read past
  the end of an array gives \<^verbatim>\<open>undefined\<close>.
\<close>

definition scoreStep ::
  "rounding \<Rightarrow> number list \<Rightarrow> number list \<Rightarrow> nat \<Rightarrow> nat
     \<Rightarrow> number \<times> number \<times> number \<Rightarrow> number \<times> number \<times> number" where
  "scoreStep rd query buf offset j acc =
     (case acc of (dot, normA, normB) \<Rightarrow>
        let a = toNumber (nth_opt query j);
            b = toNumber (nth_opt buf (offset + j))
        in (jsadd rd dot (jsmul rd a b),
            jsadd rd normA (jsmul rd a a),
            jsadd rd normB (jsmul rd b b)))"

definition rowScore :: "rounding \<Rightarrow> RagState \<Rightarrow> number list \<Rightarrow> number list \<Rightarrow> nat \<Rightarrow> number" where
  "rowScore rd s query buf i =
     (let offset = i * dimension s in
      case fold (scoreStep rd query buf offset) [0..<dimension s] (Num 0, Num 0, Num 0) of
        (dot, normA, normB) \<Rightarrow>
          jsdiv rd dot
            (jsadd rd (jsmul rd (jssqrt rd normA) (jssqrt rd normB))
               (Num (rnd rd (1 / 10 ^ 8)))))"

text \<open>
  \<^verbatim>\<open>scores.sort((a, b) => b.score - a.score)\<close>. \<^verbatim>\<open>Array.prototype.sort\<close> is stable, reads a
  comparator result \<^verbatim>\<open>NaN\<close> as \<open>+0\<close> and uses the sign of the result only; with a consistent
  comparator its result is that of any stable sort, here insertion from the right.
\<close>

definition scoreCompare ::
  "rounding \<Rightarrow> 'a \<times> number \<Rightarrow> 'a \<times> number \<Rightarrow> number" where
  "scoreCompare rd a b = jssub rd (snd b) (snd a)"

definition sortCompare :: "('a \<Rightarrow> 'a \<Rightarrow> number) \<Rightarrow> 'a \<Rightarrow> 'a \<Rightarrow> number" where
  "sortCompare comparefn x y = (case comparefn x y of NaN \<Rightarrow> Num 0 | v \<Rightarrow> v)"

fun sortInsert :: "('a \<Rightarrow> 'a \<Rightarrow> number) \<Rightarrow> 'a \<Rightarrow> 'a list \<Rightarrow> 'a list" where
  "sortInsert comparefn x [] = [x]"
| "sortInsert comparefn x (y # ys) =
     (if positive (sortCompare comparefn x y) then y # sortInsert comparefn x ys
      else x # y # ys)"

definition arraySort :: "('a \<Rightarrow> 'a \<Rightarrow> number) \<Rightarrow> 'a list \<Rightarrow> 'a list" where
  "arraySort comparefn xs = foldr (sortInsert comparefn) xs []"

definition search ::
  "rounding \<Rightarrow> RagState \<Rightarrow> msg_id \<Rightarrow> number list \<Rightarrow> number
     \<Rightarrow> RagState \<times> ReplyPayload WorkerResponse list" where
  "search rd s i queryEmbedding topK =
     (case vectors s of
        None \<Rightarrow> (s, [reply i ''SEARCH_RESULT'' (SearchResults [])])
      | Some buf \<Rightarrow>
          if count s = 0 then (s, [reply i ''SEARCH_RESULT'' (SearchResults [])])
          else
            let query = map (toSingle rd) queryEmbedding;
                scores = map (\<lambda>k. (nth_opt (ids s) k, rowScore rd s query buf k)) [0..<count s];
                results = slice0 (arraySort (scoreCompare rd) scores) topK
            in (s, [reply i ''SEARCH_RESULT'' (SearchResults results)]))"

definition clear :: "RagState \<Rightarrow> msg_id \<Rightarrow> RagState \<times> ReplyPayload WorkerResponse list" where
  "clear s i =
     (s\<lparr> vectors := None, ids := [], count := 0, dimension := 0 \<rparr>,
      [reply i ''CLEAR_COMPLETE'' (ClearSuccess True)])"

text \<open>\<^verbatim>\<open>ctx.onmessage\<close> of the worker: the new state and the messages posted back.\<close>

fun ragOnmessage ::
  "rounding \<Rightarrow> RagState \<Rightarrow> msg_id \<times> RagRequest
     \<Rightarrow> RagState \<times> ReplyPayload WorkerResponse list" where
  "ragOnmessage rd s (i, INDEX_CHUNK chunkId content embedding) = indexChunk rd s i chunkId embedding"
| "ragOnmessage rd s (i, SEARCH queryEmbedding topK) = search rd s i queryEmbedding topK"
| "ragOnmessage rd s (i, CLEAR) = clear s i"
| "ragOnmessage rd s (i, UnknownType ty) = (s, [replyError i (''Unknown message type: '' @ ty)])"






text \<open>
  The doubles are the numbers \<open>m * 2\<^sup>e\<close> with \<open>|m| < 2\<^sup>5\<^sup>3\<close> and \<open>-1074 \<le> e \<le> 971\<close>. What every
  rounding to nearest does: it is monotone, leaves a double and a rounded value as they
  are, and does not round the difference of two rounded values that differ to zero (they
  are multiples of \<open>2\<^sup>-\<^sup>1\<^sup>0\<^sup>7\<^sup>4\<close>, the least positive double).
\<close>

definition isDouble :: "real \<Rightarrow> bool" where
  "isDouble x =
     (\<exists>m :: int. \<exists>n :: nat. \<bar>m\<bar> < 2 ^ 53 \<and> n \<le> 2045 \<and> x = of_int m * 2 ^ n / 2 ^ 1074)"

definition rounding_ok :: "rounding \<Rightarrow> bool" where
  "rounding_ok rd =
     (mono (rnd rd) \<and> (\<forall>x. isDouble x \<longrightarrow> rnd rd x = x) \<and>
      (\<forall>x. rnd rd (rnd rd x) = rnd rd x) \<and>
      (\<forall>x y. rnd rd x \<noteq> rnd rd y \<longrightarrow> rnd rd (rnd rd x - rnd rd y) \<noteq> 0))"














definition afterEmptyInsert :: RagState where
  "afterEmptyInsert = fst (ragOnmessage exact initialRag (FireId 1, INDEX_CHUNK (js ''e0'') [] []))"

definition afterPairInsert :: RagState where
  "afterPairInsert =
     fst (ragOnmessage exact initialRag (FireId 1, INDEX_CHUNK (js ''e0'') [] [Num 1, Num 2]))"


section \<open>Chunker (workers/parser.worker.ts)\<close>

text \<open>The characters \<^verbatim>\<open>\s\<close> matches and \<^verbatim>\<open>trim\<close> removes: white space and line terminators.\<close>

definition isSpace :: "16 word \<Rightarrow> bool" where
  "isSpace c =
     (c = 0x09 \<or> c = 0x0A \<or> c = 0x0B \<or> c = 0x0C \<or> c = 0x0D \<or> c = 0x20 \<or> c = 0xA0 \<or>
      c = 0x1680 \<or> (0x2000 \<le> c \<and> c \<le> 0x200A) \<or> c = 0x2028 \<or> c = 0x2029 \<or>
      c = 0x202F \<or> c = 0x205F \<or> c = 0x3000 \<or> c = 0xFEFF)"

text \<open>
  \<^verbatim>\<open>.replace(/<[^>]*>/g, ' ')\<close>: a \<^verbatim>\<open><\<close> with a \<^verbatim>\<open>>\<close> somewhere after it is replaced,
  up to the first such \<^verbatim>\<open>>\<close>, by one space; a \<^verbatim>\<open><\<close> with no \<^verbatim>\<open>>\<close> after it stays.
\<close>

function stripTags :: "jsstring \<Rightarrow> jsstring" where
  "stripTags [] = []"
| "stripTags (c # cs) =
     (if c = 0x3C then
        (case dropWhile (\<lambda>x. x \<noteq> 0x3E) cs of
           [] \<Rightarrow> c # stripTags cs
         | g # rest \<Rightarrow> 0x20 # stripTags rest)
      else c # stripTags cs)"
  by pat_completeness auto
termination
proof (relation "measure length")
  fix c g :: "16 word" and cs rest :: "16 word list"
  assume "dropWhile (\<lambda>x. x \<noteq> 0x3E) cs = g # rest"
  then have "length (g # rest) \<le> length cs"
    using length_dropWhile_le [of "\<lambda>x. x \<noteq> 0x3E" cs] by simp
  then show "(rest, c # cs) \<in> measure length" by simp
qed simp_all

text \<open>\<^verbatim>\<open>.replace(/\s+/g, ' ')\<close>: every maximal run of white space becomes one space.\<close>

function collapseSpaces :: "jsstring \<Rightarrow> jsstring" where
  "collapseSpaces [] = []"
| "collapseSpaces (c # cs) =
     (if isSpace c then 0x20 # collapseSpaces (dropWhile isSpace cs)
      else c # collapseSpaces cs)"
  by pat_completeness auto
termination
proof (relation "measure length")
  fix c :: "16 word" and cs :: "16 word list"
  show "(dropWhile isSpace cs, c # cs) \<in> measure length"
    using length_dropWhile_le [of isSpace cs] by simp
qed simp_all

definition trim :: "jsstring \<Rightarrow> jsstring" where
  "trim s = rev (dropWhile isSpace (rev (dropWhile isSpace s)))"

definition cleanHtml :: "jsstring \<Rightarrow> jsstring" where
  "cleanHtml body = trim (collapseSpaces (stripTags body))"

record BookSection =
  section_id :: jsstring
  title :: jsstring
  body :: jsstring

record TextChunk =
  chunk_id :: jsstring
  chapterId :: jsstring
  chapterTitle :: jsstring
  content :: jsstring

text \<open>
  The inner loop, \<^verbatim>\<open>while (start < plainText.length)\<close>. Nothing in it bounds the number of
  rounds, so the loop is a partial function: \<open>None\<close> is a loop that never ends.
\<close>

partial_function (option) chunkLoop ::
  "jsstring \<Rightarrow> BookSection \<Rightarrow> int \<Rightarrow> int \<Rightarrow> int \<Rightarrow> nat \<Rightarrow> TextChunk list
     \<Rightarrow> TextChunk list option" where
  "chunkLoop plainText chapter chunkSize overlap start chunkIndex chunks =
     (if start < int (length plainText) then
        let end = min (start + chunkSize) (int (length plainText));
            content = jsSlice plainText start end;
            chunk = \<lparr> chunk_id = section_id chapter @ js ''-chunk-'' @ js (decimal chunkIndex),
                      chapterId = section_id chapter,
                      chapterTitle = title chapter,
                      content = content \<rparr>
        in chunkLoop plainText chapter chunkSize overlap (start + (chunkSize - overlap))
             (chunkIndex + 1) (chunks @ [chunk])
      else Some chunks)"

declare chunkLoop.simps [code]

text \<open>The outer loop, \<^verbatim>\<open>for (const chapter of chapters)\<close>, threading the output array.\<close>

fun chunkChapters ::
  "BookSection list \<Rightarrow> int \<Rightarrow> int \<Rightarrow> TextChunk list \<Rightarrow> TextChunk list option" where
  "chunkChapters [] chunkSize overlap chunks = Some chunks"
| "chunkChapters (chapter # rest) chunkSize overlap chunks =
     (let plainText = cleanHtml (body chapter) in
      if length plainText < 50 then chunkChapters rest chunkSize overlap chunks
      else
        (case chunkLoop plainText chapter chunkSize overlap 0 0 chunks of
           None \<Rightarrow> None
         | Some chunks' \<Rightarrow> chunkChapters rest chunkSize overlap chunks'))"

text \<open>\<^verbatim>\<open>chunkBookContent(chapters, chunkSize = 800, overlap = 100)\<close>.\<close>

definition chunkBookContent ::
  "BookSection list \<Rightarrow> int option \<Rightarrow> int option \<Rightarrow> TextChunk list option" where
  "chunkBookContent chapters chunkSize_opt overlap_opt =
     chunkChapters chapters
       (case chunkSize_opt of None \<Rightarrow> 800 | Some n \<Rightarrow> n)
       (case overlap_opt of None \<Rightarrow> 100 | Some n \<Rightarrow> n) []"

text \<open>
  The windows of the specification: a window of \<open>chunkSize\<close> characters slides over the
  cleaned text in steps of \<open>chunkSize - overlap\<close>, and every window that starts inside the
  text gives one chunk, the last partial ones included.
\<close>

definition windowCount :: "nat \<Rightarrow> nat \<Rightarrow> nat" where
  "windowCount n stride = (n + stride - 1) div stride"

definition windowAt :: "jsstring \<Rightarrow> BookSection \<Rightarrow> nat \<Rightarrow> nat \<Rightarrow> nat \<Rightarrow> TextChunk" where
  "windowAt plainText chapter width stride k =
     \<lparr> chunk_id = section_id chapter @ js ''-chunk-'' @ js (decimal k),
       chapterId = section_id chapter,
       chapterTitle = title chapter,
       content = take width (drop (k * stride) plainText) \<rparr>"

definition chapterChunks :: "int \<Rightarrow> int \<Rightarrow> BookSection \<Rightarrow> TextChunk list" where
  "chapterChunks chunkSize overlap chapter =
     (let plainText = cleanHtml (body chapter);
          stride = nat (chunkSize - overlap)
      in if length plainText < 50 then []
         else map (windowAt plainText chapter (nat chunkSize) stride)
                [0..<windowCount (length plainText) stride])"

text \<open>The last \<open>n\<close> characters of \<open>a\<close> are the first \<open>n\<close> characters of \<open>b\<close>.\<close>

definition overlapsBy :: "nat \<Rightarrow> 'a list \<Rightarrow> 'a list \<Rightarrow> bool" where
  "overlapsBy n a b = (n \<le> length a \<and> n \<le> length b \<and> drop (length a - n) a = take n b)"

text \<open>A chapter of fifty letters \<^verbatim>\<open>a\<close>.\<close>

definition fiftyLetters :: BookSection where
  "fiftyLetters = \<lparr> section_id = js ''c1'', title = js ''T'', body = replicate 50 0x61 \<rparr>"

definition fiveBlocks :: BookSection where
  "fiveBlocks = \<lparr> section_id = js ''c2'', title = js ''Blocks'',
       body = replicate 10 0x61 @ replicate 10 0x62 @ replicate 10 0x63 @
              replicate 10 0x64 @ replicate 10 0x65 \<rparr>"

definition shortSection :: BookSection where
  "shortSection = \<lparr> section_id = js ''c3'', title = js ''Short'',
       body = js ''<p>  too   short </p>'' \<rparr>"

section \<open>Embedding cache (services/db.ts)\<close>

text \<open>
  The object store \<^verbatim>\<open>embeddings\<close> has the key path \<^verbatim>\<open>[bookId, chunkId]\<close>: it holds one
  record for each key, in the order of the keys (strings compare by code units). It is
  modelled by the list of its records in that order. The index \<^verbatim>\<open>by-book\<close> lists the
  records of a book in the same order.
\<close>

record EmbeddingRecord =
  bookId :: jsstring
  chunkId :: jsstring
  embedding :: "8 word list"
  model :: "jsstring option"
  dimensions :: nat

type_synonym store = "EmbeddingRecord list"

definition keyLess :: "EmbeddingRecord \<Rightarrow> EmbeddingRecord \<Rightarrow> bool" where
  "keyLess a b = (bookId a < bookId b \<or> (bookId a = bookId b \<and> chunkId a < chunkId b))"

definition sameKey :: "EmbeddingRecord \<Rightarrow> EmbeddingRecord \<Rightarrow> bool" where
  "sameKey a b = (bookId a = bookId b \<and> chunkId a = chunkId b)"

text \<open>\<^verbatim>\<open>store.put(value)\<close>: replaces the record of the same key, or inserts in key order.\<close>

fun storePut :: "EmbeddingRecord \<Rightarrow> store \<Rightarrow> store" where
  "storePut r [] = [r]"
| "storePut r (x # xs) =
     (if sameKey r x then r # xs
      else if keyLess r x then r # x # xs
      else x # storePut r xs)"

text \<open>
  \<^verbatim>\<open>new Int8Array(numbers)\<close> converts each number with \<open>ToInt8\<close>: truncation towards zero,
  then reduction modulo \<open>2\<^sup>8\<close>. An argument \<^verbatim>\<open>undefined\<close> gives the empty array.
\<close>

definition toInt8 :: "real \<Rightarrow> 8 word" where
  "toInt8 x = word_of_int (jsTruncate x)"

definition newInt8Array :: "real list option \<Rightarrow> 8 word list" where
  "newInt8Array numbers = (case numbers of None \<Rightarrow> [] | Some xs \<Rightarrow> map toInt8 xs)"

text \<open>\<^verbatim>\<open>Array.from(int8Array)\<close>: the signed value of each element, as a number.\<close>

definition arrayFrom :: "8 word list \<Rightarrow> real list" where
  "arrayFrom ws = map (\<lambda>w. real_of_int (sint w)) ws"

definition saveEmbeddingsBatch ::
  "store \<Rightarrow> jsstring \<Rightarrow> (jsstring \<times> real list option) list \<Rightarrow> jsstring option \<Rightarrow> store" where
  "saveEmbeddingsBatch db book embeddings mdl =
     foldl (\<lambda>db e.
              let val = newInt8Array (snd e) in
              storePut \<lparr> bookId = book, chunkId = fst e, embedding = val, model = mdl,
                         dimensions = length val \<rparr> db)
           db embeddings"

definition getEmbeddingMetadata :: "store \<Rightarrow> jsstring \<Rightarrow> (jsstring option \<times> nat) option" where
  "getEmbeddingMetadata db book =
     (case filter (\<lambda>r. bookId r = book) db of
        [] \<Rightarrow> None
      | first # _ \<Rightarrow> Some (model first, dimensions first))"

text \<open>\<^verbatim>\<open>getBookEmbeddings\<close>: a \<^verbatim>\<open>Map\<close> filled in index order; a later \<^verbatim>\<open>set\<close> wins.\<close>

definition getBookEmbeddings :: "store \<Rightarrow> jsstring \<Rightarrow> (jsstring \<rightharpoonup> real list)" where
  "getBookEmbeddings db book =
     map_of (rev (map (\<lambda>r. (chunkId r, arrayFrom (embedding r)))
                      (filter (\<lambda>r. bookId r = book) db)))"

definition clearBookEmbeddings :: "store \<Rightarrow> jsstring \<Rightarrow> store" where
  "clearBookEmbeddings db book = filter (\<lambda>r. bookId r \<noteq> book) db"

text \<open>A store holds one record for each key, in key order.\<close>

definition store_ok :: "store \<Rightarrow> bool" where
  "store_ok db = sorted_wrt keyLess db"

definition storeGet :: "store \<Rightarrow> jsstring \<Rightarrow> jsstring \<Rightarrow> EmbeddingRecord option" where
  "storeGet db book c = find (\<lambda>r. bookId r = book \<and> chunkId r = c) db"

definition embeddingRecord ::
  "jsstring \<Rightarrow> jsstring option \<Rightarrow> jsstring \<times> real list option \<Rightarrow> EmbeddingRecord" where
  "embeddingRecord book mdl e =
     \<lparr> bookId = book, chunkId = fst e, embedding = newInt8Array (snd e), model = mdl,
       dimensions = length (newInt8Array (snd e)) \<rparr>"

text \<open>Two chunks with components such as 0.5, -0.3 and 0.99.\<close>

definition smallBatch :: "(jsstring \<times> real list option) list" where
  "smallBatch = [(js ''c1-chunk-0'', Some [1 / 2, - (3 / 10), 99 / 100]),
                 (js ''c1-chunk-1'', Some [0, - (1 / 1000), 1 / 4])]"

section \<open>Provider calls (services/ai.ts)\<close>

text \<open>
  What lies outside the program is a parameter of the model: the outcome of the \<open>n\<close>-th call
  of \<^verbatim>\<open>fetch\<close> (a rejection, or a response with its status and, for the embeddings
  endpoint, the embeddings of its body), the \<open>n\<close>-th value of \<^verbatim>\<open>Math.random()\<close>, and
  whether reading the cache fails. What the program does to the outside is recorded, in
  order, in the list \<open>effects\<close>.
\<close>

datatype ErrorCode =
    NETWORK_ERROR | API_ERROR | DB_ERROR | STALE_INDEX | IMPORT_FAILED | FILE_TOO_LARGE
  | WORKER_ERROR | ABORT_ERROR | UNKNOWN_ERROR

text \<open>A thrown value: an error with its name and message, or an \<^verbatim>\<open>AppError\<close>.\<close>

datatype js_error =
    JsError string string
  | AppError ErrorCode string bool

datatype fetch_outcome =
    FetchRejected js_error
  | HttpResponse nat "real list list"

record world =
  fetchResult :: "nat \<Rightarrow> fetch_outcome"
  randomValue :: "nat \<Rightarrow> real"
  loadFails :: bool

datatype effect =
    Fetch jsstring "jsstring list"
  | Sleep real
  | DbGetMeta jsstring
  | DbClear jsstring
  | DbGetAll jsstring
  | DbSave jsstring nat
  | Progress nat nat

record IndexChunkPayload =
  payload_id :: jsstring
  payload_content :: jsstring
  payload_embedding :: "real list option"

record runtime =
  embeddings :: store
  ragClient :: "(IndexChunkPayload, unit) WorkerClient"
  fetchCount :: nat
  randomCount :: nat
  effects :: "effect list"

record AIConfig =
  baseUrl :: jsstring
  chatModel :: jsstring
  embeddingModel :: jsstring

text \<open>\<^verbatim>\<open>response.ok\<close>.\<close>

definition responseOk :: "nat \<Rightarrow> bool" where
  "responseOk status = (200 \<le> status \<and> status \<le> 299)"

text \<open>
  \<^verbatim>\<open>fetchWithRetry\<close>: the loop \<^verbatim>\<open>for (let i = 0; i < maxRetries; i++)\<close>, from round \<open>i\<close>
  with the last caught error. The request is the model and the input of its body.
\<close>

function fetchLoop ::
  "world \<Rightarrow> jsstring \<Rightarrow> jsstring list \<Rightarrow> nat \<Rightarrow> nat \<Rightarrow> js_error option \<Rightarrow> runtime
     \<Rightarrow> runtime \<times> (js_error + nat \<times> real list list)" where
  "fetchLoop w mdl input maxRetries i lastError st =
     (if i < maxRetries then
        let outcome = fetchResult w (fetchCount st);
            st1 = st\<lparr> fetchCount := fetchCount st + 1,
                      effects := effects st @ [Fetch mdl input] \<rparr>;
            delay = 2 ^ i * 1000 + randomValue w (randomCount st1) * 1000;
            st2 = st1\<lparr> randomCount := randomCount st1 + 1,
                       effects := effects st1 @ [Sleep delay] \<rparr>
        in case outcome of
             HttpResponse status data \<Rightarrow>
               if responseOk status then (st1, Inr (status, data))
               else if status \<ge> 500 \<or> status = 429
                    then fetchLoop w mdl input maxRetries (i + 1) lastError st2
                    else (st1, Inr (status, data))
           | FetchRejected e \<Rightarrow> fetchLoop w mdl input maxRetries (i + 1) (Some e) st2
      else
        (st, Inl (case lastError of
                    Some e \<Rightarrow> e
                  | None \<Rightarrow> JsError ''Error''
                             (''Fetch failed after '' @ decimal maxRetries @ '' retries''))))"
  by pat_completeness auto
termination
  by (relation "measure (\<lambda>(w, mdl, input, maxRetries, i, lastError, st). maxRetries - i)") auto

declare fetchLoop.simps [simp del]

definition fetchWithRetry ::
  "world \<Rightarrow> jsstring \<Rightarrow> jsstring list \<Rightarrow> nat option \<Rightarrow> runtime
     \<Rightarrow> runtime \<times> (js_error + nat \<times> real list list)" where
  "fetchWithRetry w mdl input maxRetries_opt st =
     fetchLoop w mdl input (case maxRetries_opt of None \<Rightarrow> 3 | Some n \<Rightarrow> n) 0 None st"

text \<open>An outcome after which the loop goes on: a rejection, or a status 5xx or 429.\<close>

definition retried :: "fetch_outcome \<Rightarrow> bool" where
  "retried outcome =
     (case outcome of
        FetchRejected e \<Rightarrow> True
      | HttpResponse status data \<Rightarrow> \<not> responseOk status \<and> (500 \<le> status \<or> status = 429))"

definition outcomeAt :: "world \<Rightarrow> runtime \<Rightarrow> nat \<Rightarrow> fetch_outcome" where
  "outcomeAt w st k = fetchResult w (fetchCount st + k)"

definition delayAt :: "world \<Rightarrow> runtime \<Rightarrow> nat \<Rightarrow> real" where
  "delayAt w st k = 2 ^ k * 1000 + randomValue w (randomCount st + k) * 1000"

definition responseOf :: "fetch_outcome \<Rightarrow> nat \<times> real list list" where
  "responseOf outcome = (case outcome of HttpResponse status data \<Rightarrow> (status, data) | FetchRejected e \<Rightarrow> (0, []))"

text \<open>The error thrown after a list of retried outcomes: the last rejection, if there is one.\<close>

definition thrownAfter :: "nat \<Rightarrow> fetch_outcome list \<Rightarrow> js_error" where
  "thrownAfter maxRetries outcomes =
     (case [e. FetchRejected e \<leftarrow> rev outcomes] of
        e # _ \<Rightarrow> e
      | [] \<Rightarrow> JsError ''Error'' (''Fetch failed after '' @ decimal maxRetries @ '' retries''))"

text \<open>
  The state after \<open>fetches\<close> calls of \<^verbatim>\<open>fetch\<close> of which the first \<open>sleeps\<close> were followed by
  a wait.
\<close>

definition afterFetches :: "world \<Rightarrow> jsstring \<Rightarrow> jsstring list \<Rightarrow> runtime \<Rightarrow> nat \<Rightarrow> nat \<Rightarrow> runtime" where
  "afterFetches w mdl input st fetches sleeps =
     st\<lparr> fetchCount := fetchCount st + fetches,
         randomCount := randomCount st + sleeps,
         effects := effects st @
           concat (map (\<lambda>k. Fetch mdl input # (if k < sleeps then [Sleep (delayAt w st k)] else []))
                       [0..<fetches]) \<rparr>"

definition lastErrorAfter :: "js_error option \<Rightarrow> fetch_outcome \<Rightarrow> js_error option" where
  "lastErrorAfter lastError outcome =
     (case outcome of FetchRejected e \<Rightarrow> Some e | HttpResponse status data \<Rightarrow> lastError)"

text \<open>
  \<^verbatim>\<open>getBatchEmbeddings\<close>: one request for every 2048 texts (no caller passes another
  limit), each text cut to 8000 characters; a response that is not \<^verbatim>\<open>ok\<close> throws an
  \<^verbatim>\<open>AppError\<close> with the code \<^verbatim>\<open>API_ERROR\<close>.
\<close>

function getBatchLoop ::
  "world \<Rightarrow> AIConfig \<Rightarrow> jsstring list \<Rightarrow> real list list \<Rightarrow> runtime
     \<Rightarrow> runtime \<times> (js_error + real list list)" where
  "getBatchLoop w config texts results st =
     (if texts = [] then (st, Inr results)
      else
        let batch = map (take 8000) (take 2048 texts);
            mdl = (if embeddingModel config \<noteq> [] then embeddingModel config
                   else js ''text-embedding-3-small'')
        in case fetchWithRetry w mdl batch None st of
             (st1, Inl e) \<Rightarrow> (st1, Inl e)
           | (st1, Inr (status, data)) \<Rightarrow>
               if \<not> responseOk status
               then (st1, Inl (AppError API_ERROR (''Embedding API Error: '' @ decimal status)
                                 (status = 429 \<or> status \<ge> 500)))
               else getBatchLoop w config (drop 2048 texts) (results @ data) st1)"
  by pat_completeness auto
termination
  by (relation "measure (\<lambda>(w, config, texts, results, st). length texts)") auto

declare getBatchLoop.simps [simp del]

definition getBatchEmbeddings ::
  "world \<Rightarrow> AIConfig \<Rightarrow> jsstring list \<Rightarrow> runtime \<Rightarrow> runtime \<times> (js_error + real list list)" where
  "getBatchEmbeddings w config texts st = getBatchLoop w config texts [] st"

text \<open>\<^verbatim>\<open>AppError.from\<close>.\<close>

definition appErrorFrom :: "js_error \<Rightarrow> js_error" where
  "appErrorFrom e =
     (case e of
        AppError code message retryable \<Rightarrow> e
      | JsError name message \<Rightarrow>
          if name = ''AbortError'' then AppError ABORT_ERROR ''Operation aborted'' False
          else AppError UNKNOWN_ERROR message False)"

definition errorCode :: "js_error \<Rightarrow> ErrorCode option" where
  "errorCode e = (case e of AppError code message retryable \<Rightarrow> Some code | JsError name message \<Rightarrow> None)"

section \<open>Embedding pipeline (services/rag.ts)\<close>

record SemanticChunk = TextChunk +
  chunk_embedding :: "real list option"

definition semanticChunk :: "TextChunk \<Rightarrow> real list option \<Rightarrow> SemanticChunk" where
  "semanticChunk c e =
     \<lparr> chunk_id = chunk_id c, chapterId = chapterId c, chapterTitle = chapterTitle c,
       content = content c, chunk_embedding = e \<rparr>"

record validation =
  valid :: bool
  reason :: "jsstring option"

text \<open>
  \<^verbatim>\<open>validateIndex\<close>. A string is true in a condition when it is not empty; the stored
  model may be absent.
\<close>

definition validateIndex :: "runtime \<Rightarrow> jsstring \<Rightarrow> AIConfig \<Rightarrow> runtime \<times> validation" where
  "validateIndex st book config =
     (let st1 = st\<lparr> effects := effects st @ [DbGetMeta book] \<rparr> in
      case getEmbeddingMetadata (embeddings st) book of
        None \<Rightarrow> (st1, \<lparr> valid = True, reason = None \<rparr>)
      | Some (stored, dims) \<Rightarrow>
          (case stored of
             None \<Rightarrow> (st1, \<lparr> valid = True, reason = None \<rparr>)
           | Some m \<Rightarrow>
               if embeddingModel config \<noteq> [] \<and> m \<noteq> [] \<and> m \<noteq> embeddingModel config
               then (st1, \<lparr> valid = False,
                            reason = Some (js ''Model mismatch: index='' @ m @ js '', config=''
                                            @ embeddingModel config) \<rparr>)
               else (st1, \<lparr> valid = True, reason = None \<rparr>)))"

text \<open>
  The first \<^verbatim>\<open>forEach\<close>: a chunk with a persisted vector is sent to the index at once,
  the others are collected with their indices.
\<close>

fun partitionChunks ::
  "(jsstring \<rightharpoonup> real list) \<Rightarrow> TextChunk list \<Rightarrow> nat
     \<Rightarrow> (IndexChunkPayload, unit) WorkerClient \<times> SemanticChunk list \<times> (nat \<times> TextChunk) list
     \<Rightarrow> (IndexChunkPayload, unit) WorkerClient \<times> SemanticChunk list \<times> (nat \<times> TextChunk) list" where
  "partitionChunks persisted [] i acc = acc"
| "partitionChunks persisted (c # cs) i (cl, sem, uncached) =
     (case persisted (chunk_id c) of
        Some e \<Rightarrow>
          partitionChunks persisted cs (i + 1)
            (send ''INDEX_CHUNK''
               \<lparr> payload_id = chunk_id c, payload_content = content c,
                 payload_embedding = Some e \<rparr> cl,
             sem @ [semanticChunk c (Some e)], uncached)
      | None \<Rightarrow>
          partitionChunks persisted cs (i + 1)
            (cl, sem @ [semanticChunk c None], uncached @ [(i, c)]))"

text \<open>
  The \<^verbatim>\<open>forEach\<close> over a batch that was embedded: \<^verbatim>\<open>embeddings[batchIdx]\<close> is
  \<^verbatim>\<open>undefined\<close> when the provider returned fewer vectors than texts.
\<close>

fun attachBatch ::
  "real list list \<Rightarrow> (nat \<times> TextChunk) list \<Rightarrow> nat
     \<Rightarrow> (IndexChunkPayload, unit) WorkerClient \<times> SemanticChunk list
         \<times> (jsstring \<times> real list option) list
     \<Rightarrow> (IndexChunkPayload, unit) WorkerClient \<times> SemanticChunk list
         \<times> (jsstring \<times> real list option) list" where
  "attachBatch vecs [] batchIdx acc = acc"
| "attachBatch vecs (item # items) batchIdx (cl, sem, newEmbeddings) =
     (let e = nth_opt vecs batchIdx;
          c = snd item
      in attachBatch vecs items (batchIdx + 1)
           (send ''INDEX_CHUNK''
              \<lparr> payload_id = chunk_id c, payload_content = content c, payload_embedding = e \<rparr> cl,
            sem[fst item := (sem ! fst item)\<lparr> chunk_embedding := e \<rparr>],
            newEmbeddings @ [(chunk_id c, e)]))"

text \<open>The loop over the batches of 50 uncached chunks, \<open>i\<close> being its counter.\<close>

function batchLoop ::
  "world \<Rightarrow> AIConfig \<Rightarrow> nat \<Rightarrow> nat \<Rightarrow> (nat \<times> TextChunk) list \<Rightarrow> nat \<Rightarrow> runtime
     \<Rightarrow> SemanticChunk list \<Rightarrow> (jsstring \<times> real list option) list
     \<Rightarrow> runtime \<times> (js_error + SemanticChunk list \<times> (jsstring \<times> real list option) list)" where
  "batchLoop w config chunkCount uncachedCount remaining i st sem newEmbeddings =
     (if remaining = [] then (st, Inr (sem, newEmbeddings))
      else
        let batch = take 50 remaining;
            texts = map (\<lambda>b. content (snd b)) batch
        in case getBatchEmbeddings w config texts st of
             (st1, Inr vecs) \<Rightarrow>
               (case attachBatch vecs batch 0 (ragClient st1, sem, newEmbeddings) of
                  (cl, sem', newEmbeddings') \<Rightarrow>
                    batchLoop w config chunkCount uncachedCount (drop 50 remaining) (i + 50)
                      (st1\<lparr> ragClient := cl,
                            effects := effects st1 @
                              [Progress (chunkCount - uncachedCount + i + length batch) chunkCount] \<rparr>)
                      sem' newEmbeddings')
           | (st1, Inl e) \<Rightarrow>
               if errorCode (appErrorFrom e) = Some API_ERROR then (st1, Inl (appErrorFrom e))
               else batchLoop w config chunkCount uncachedCount (drop 50 remaining) (i + 50)
                      st1 sem newEmbeddings)"
  by pat_completeness auto
termination
  by (relation "measure (\<lambda>(w, config, chunkCount, uncachedCount, remaining, i, st, sem, new).
                    length remaining)") auto

declare batchLoop.simps [simp del]

definition indexChunksWithEmbeddings ::
  "world \<Rightarrow> TextChunk list \<Rightarrow> AIConfig \<Rightarrow> jsstring \<Rightarrow> runtime
     \<Rightarrow> runtime \<times> (js_error + SemanticChunk list)" where
  "indexChunksWithEmbeddings w chunks config book st =
     (case validateIndex st book config of
        (st1, validation) \<Rightarrow>
          let st2 = (if \<not> valid validation
                     then st1\<lparr> embeddings := clearBookEmbeddings (embeddings st1) book,
                               effects := effects st1 @ [DbClear book] \<rparr>
                     else st1);
              persisted = (if loadFails w then Map.empty
                           else getBookEmbeddings (embeddings st2) book);
              st3 = st2\<lparr> effects := effects st2 @ [DbGetAll book] \<rparr>
          in case partitionChunks persisted chunks 0 (ragClient st3, [], []) of
               (cl, sem, uncached) \<Rightarrow>
                 (case batchLoop w config (length chunks) (length uncached) uncached 0
                         (st3\<lparr> ragClient := cl \<rparr>) sem [] of
                    (st4, Inl e) \<Rightarrow> (st4, Inl e)
                  | (st4, Inr (sem', newEmbeddings)) \<Rightarrow>
                      if newEmbeddings \<noteq> []
                      then (st4\<lparr> embeddings :=
                                   saveEmbeddingsBatch (embeddings st4) book newEmbeddings
                                     (Some (embeddingModel config)),
                                 effects := effects st4 @ [DbSave book (length newEmbeddings)] \<rparr>,
                            Inr sem')
                      else (st4, Inr sem')))"

text \<open>
  A later state that has the same store and only more effects, none of them a clearing of
  the cache.
\<close>

definition extends :: "runtime \<Rightarrow> runtime \<Rightarrow> bool" where
  "extends st st' =
     (embeddings st' = embeddings st \<and>
      (\<exists>rest. effects st' = effects st @ rest \<and> (\<forall>b. DbClear b \<notin> set rest)))"

definition idleRuntime :: runtime where
  "idleRuntime = \<lparr> embeddings = [], ragClient = newClient (Some 60000) None,
                   fetchCount = 0, randomCount = 0, effects = [] \<rparr>"

definition flakyProvider :: world where
  "flakyProvider =
     \<lparr> fetchResult = (\<lambda>n. if n = 0 then HttpResponse 503 []
                           else if n = 1 then HttpResponse 429 []
                           else HttpResponse 404 []),
       randomValue = (\<lambda>n. 1 / 2), loadFails = False \<rparr>"

definition goodProvider :: world where
  "goodProvider =
     \<lparr> fetchResult = (\<lambda>n. HttpResponse 200 [[1 / 2, 1 / 4]]),
       randomValue = (\<lambda>n. 0), loadFails = False \<rparr>"

definition staleStore :: store where
  "staleStore = [\<lparr> bookId = js ''book'', chunkId = js ''c1-chunk-0'', embedding = [0, 0],
                   model = Some (js ''A''), dimensions = 2 \<rparr>]"

definition staleRuntime :: runtime where
  "staleRuntime = idleRuntime\<lparr> embeddings := staleStore \<rparr>"

definition configB :: AIConfig where
  "configB = \<lparr> baseUrl = js ''/api'', chatModel = js ''chat'', embeddingModel = js ''B'' \<rparr>"

definition configEmpty :: AIConfig where
  "configEmpty = \<lparr> baseUrl = js ''/api'', chatModel = js ''chat'', embeddingModel = [] \<rparr>"

definition oneChunk :: "TextChunk list" where
  "oneChunk = [\<lparr> chunk_id = js ''c1-chunk-0'', chapterId = js ''c1'', chapterTitle = js ''T'',
                 content = js ''some text'' \<rparr>]"

chapter \<open>Properties\<close>

section \<open>Properties: Task channel client (src/lib/workerClient.ts)\<close>

subsection \<open>The queue loop\<close>

lemma processQueue_Nil: "queue s = [] \<Longrightarrow> processQueue s = s"
  by (simp add: processQueue.simps)

lemma processQueue_full: "\<not> inFlight s < maxConcurrent s \<Longrightarrow> processQueue s = s"
  by (simp add: processQueue.simps split: list.splits)

lemma processQueue_backpressure: "backpressure_ok (processQueue s)"
proof (induction s rule: processQueue.induct)
  case (1 s)
  show ?case
  proof (cases "queue s")
    case Nil
    then show ?thesis by (simp add: processQueue.simps backpressure_ok_def)
  next
    case (Cons item rest)
    show ?thesis
    proof (cases "inFlight s < maxConcurrent s")
      case True
      with Cons "1.IH" show ?thesis by (simp add: processQueue.simps [of s])
    next
      case False
      then show ?thesis by (simp add: processQueue_full backpressure_ok_def)
    qed
  qed
qed

lemma processQueue_fired: "fired (processQueue s) @ queue (processQueue s) = fired s @ queue s"
proof (induction s rule: processQueue.induct)
  case (1 s)
  show ?case
  proof (cases "queue s")
    case Nil
    then show ?thesis by (simp add: processQueue_Nil)
  next
    case (Cons item rest)
    show ?thesis
    proof (cases "inFlight s < maxConcurrent s")
      case True
      with Cons "1.IH" [OF Cons True] show ?thesis
        by (simp add: processQueue.simps [of s] fired_def sendImmediate_def Let_def)
    next
      case False
      then show ?thesis by (simp add: processQueue_full)
    qed
  qed
qed

lemma step_backpressure: "backpressure_ok s \<Longrightarrow> backpressure_ok (step s e)"
proof (cases e)
  case (Send ty pl)
  assume "backpressure_ok s"
  then show ?thesis using Send
    by (auto simp: backpressure_ok_def send_def sendImmediate_def Let_def)
next
  case (Request ty pl topt now)
  assume "backpressure_ok s"
  then show ?thesis using Request
    by (auto simp: backpressure_ok_def request_def Let_def)
next
  case (Response r)
  have "backpressure_ok (processQueue t)" for t :: "('a, 'b) WorkerClient"
    by (rule processQueue_backpressure)
  then show ?thesis using Response
    by (auto simp: onmessage_def Let_def backpressure_ok_def split: option.splits)
next
  case (TimerFires i)
  assume b: "backpressure_ok s"
  have "backpressure_ok (processQueue t)" for t :: "('a, 'b) WorkerClient"
    by (rule processQueue_backpressure)
  then show ?thesis using TimerFires b
    by (auto simp: timerFires_def Let_def backpressure_ok_def split: option.splits)
next
  case WorkerError
  then show ?thesis by (simp add: onerror_def backpressure_ok_def)
next
  case Terminate
  then show ?thesis by (simp add: terminate_def backpressure_ok_def)
qed

lemma processQueue_take_drop:
  "fired (processQueue s) = fired s @ take (dispatchCount s) (queue s) \<and>
   queue (processQueue s) = drop (dispatchCount s) (queue s) \<and>
   inFlight (processQueue s) = inFlight s + int (dispatchCount s) \<and>
   maxConcurrent (processQueue s) = maxConcurrent s \<and>
   pending (processQueue s) = pending s \<and>
   settled (processQueue s) = settled s"
proof (induction s rule: processQueue.induct)
  case (1 s)
  show ?case
  proof (cases "queue s")
    case Nil
    then show ?thesis by (simp add: processQueue_Nil dispatchCount_def)
  next
    case (Cons item rest)
    show ?thesis
    proof (cases "inFlight s < maxConcurrent s")
      case True
      let ?t = "sendImmediate (fst item) (snd item) (s\<lparr>queue := rest\<rparr>)"
      have pq: "processQueue s = processQueue ?t"
        using Cons True by (simp add: processQueue.simps [of s])
      have dc: "dispatchCount s = Suc (dispatchCount ?t)"
        using Cons True by (auto simp: dispatchCount_def sendImmediate_def Let_def min_def)
      have ft: "fired ?t = fired s @ [item]" "queue ?t = rest" "inFlight ?t = inFlight s + 1"
        "maxConcurrent ?t = maxConcurrent s" "pending ?t = pending s" "settled ?t = settled s"
        by (simp_all add: fired_def sendImmediate_def Let_def)
      from "1.IH" [OF Cons True] show ?thesis
        unfolding pq dc ft using Cons by simp
    next
      case False
      then show ?thesis by (simp add: processQueue_full dispatchCount_def)
    qed
  qed
qed

lemma step_fired:
  assumes "backpressure_ok s" "\<not> is_reset e"
  shows "fired (step s e) @ queue (step s e) = fired s @ queue s @ sends_of [e]"
proof (cases e)
  case (Send ty pl)
  then show ?thesis using assms
    by (auto simp: backpressure_ok_def send_def sendImmediate_def Let_def fired_def)
next
  case (Request ty pl topt now)
  then show ?thesis by (simp add: request_def Let_def fired_def)
next
  case (Response r)
  have "fired (processQueue t) @ queue (processQueue t) = fired t @ queue t"
    for t :: "('a, 'b) WorkerClient" by (rule processQueue_fired)
  from this [of "s\<lparr>inFlight := max 0 (inFlight s - 1)\<rparr>"]
       this [of "s\<lparr>pending := AList.delete (resp_id r) (pending s), inFlight := max 0 (inFlight s - 1)\<rparr>"]
  show ?thesis using Response
    by (auto simp: onmessage_def Let_def fired_def split: option.splits)
next
  case (TimerFires i)
  have "fired (processQueue t) @ queue (processQueue t) = fired t @ queue t"
    for t :: "('a, 'b) WorkerClient" by (rule processQueue_fired)
  from this [of "s\<lparr>pending := AList.delete i (pending s), inFlight := max 0 (inFlight s - 1)\<rparr>"]
  show ?thesis using TimerFires
    by (auto simp: timerFires_def Let_def fired_def split: option.splits)
next
  case WorkerError
  then show ?thesis using assms by simp
next
  case Terminate
  then show ?thesis using assms by simp
qed

lemma sends_of_append: "sends_of (xs @ ys) = sends_of xs @ sends_of ys"
  by (induction xs rule: sends_of.induct) auto

lemma run_snoc: "run s (evs @ [e]) = step (run s evs) e"
  by (simp add: run_def)

lemma run_backpressure: "backpressure_ok s \<Longrightarrow> backpressure_ok (run s evs)"
  by (induction evs rule: rev_induct) (simp_all add: run_def step_backpressure)

lemma newClient_backpressure: "backpressure_ok (newClient t m)"
  by (simp add: newClient_def backpressure_ok_def)

lemma run_fired:
  "backpressure_ok s \<Longrightarrow> \<forall>e\<in>set evs. \<not> is_reset e \<Longrightarrow>
   fired (run s evs) @ queue (run s evs) = fired s @ queue s @ sends_of evs"
proof (induction evs rule: rev_induct)
  case Nil
  then show ?case by (simp add: run_def)
next
  case (snoc e evs)
  then have ih: "fired (run s evs) @ queue (run s evs) = fired s @ queue s @ sends_of evs"
    by simp
  have b: "backpressure_ok (run s evs)" using snoc.prems(1) by (rule run_backpressure)
  have "\<not> is_reset e" using snoc.prems(2) by simp
  from step_fired [OF b this] ih show ?case
    by (simp add: run_snoc sends_of_append)
qed

text \<open>
  Claim C1. In every state a client reaches from its constructor, by any list of sends,
  requests, responses, timer callbacks, worker errors and terminations, the queue is
  non-empty only when \<open>inFlight\<close> is not below \<open>maxConcurrent\<close>. When capacity frees,
  \<open>processQueue\<close> dispatches a prefix of the queue in order and keeps the rest; and, as long
  as no worker error or termination has emptied the queue, the fire-and-forget messages
  posted so far followed by the queue are exactly the sends issued, in the order of issue.
\<close>

theorem backpressure_invariant_fifo:
  fixes evs :: "('p, 'r) event list" and s :: "('p, 'r) WorkerClient"
  shows "(queue (run (newClient t m) evs) \<noteq> [] \<longrightarrow>
            \<not> inFlight (run (newClient t m) evs) < maxConcurrent (run (newClient t m) evs)) \<and>
         fired (processQueue s) = fired s @ take (dispatchCount s) (queue s) \<and>
         queue (processQueue s) = drop (dispatchCount s) (queue s) \<and>
         ((\<forall>e\<in>set evs. \<not> is_reset e) \<longrightarrow>
            fired (run (newClient t m) evs) @ queue (run (newClient t m) evs) = sends_of evs)"
proof -
  have b0: "backpressure_ok (newClient t m :: ('p, 'r) WorkerClient)"
    by (rule newClient_backpressure)
  have inv: "backpressure_ok (run (newClient t m) evs)"
    using b0 by (rule run_backpressure)
  have fifo: "fired (run (newClient t m) evs) @ queue (run (newClient t m) evs) = sends_of evs"
    if "\<forall>e\<in>set evs. \<not> is_reset e"
    using run_fired [OF b0 that] by (simp add: newClient_def fired_def)
  show ?thesis
    using inv fifo processQueue_take_drop [of s] by (simp add: backpressure_ok_def)
qed

theorem backpressure_invariant_fifo_witness:
  "queue (run (newClient None (Some 2)) threeSends) = [(''INDEX_CHUNK'', 3)] \<and>
   queue (run (newClient None (Some 2)) threeSends) \<noteq> [] \<and>
   \<not> inFlight (run (newClient None (Some 2)) threeSends)
       < maxConcurrent (run (newClient None (Some 2)) threeSends) \<and>
   list_all (\<lambda>e. \<not> is_reset e) threeSends \<and>
   fired (run (newClient None (Some 2)) threeSends) @
     queue (run (newClient None (Some 2)) threeSends) = sends_of threeSends"
proof -
  have q: "queue (run (newClient None (Some 2)) threeSends) = [(''INDEX_CHUNK'', 3)]"
    by (simp add: threeSends_def run_def newClient_def send_def sendImmediate_def Let_def)
  have nr: "\<forall>e\<in>set threeSends. \<not> is_reset e"
    by (simp add: threeSends_def)
  from backpressure_invariant_fifo [of None "Some 2" threeSends undefined] q nr
  show ?thesis by (simp add: list_all_iff)
qed

subsection \<open>Timeouts\<close>

lemma step_inFlight_nonneg: "0 \<le> inFlight s \<Longrightarrow> 0 \<le> inFlight (step s e)"
proof (cases e)
  case (Send ty pl)
  assume "0 \<le> inFlight s"
  then show ?thesis using Send by (simp add: send_def sendImmediate_def Let_def)
next
  case (Request ty pl topt now)
  assume "0 \<le> inFlight s"
  then show ?thesis using Request by (simp add: request_def Let_def)
next
  case (Response r)
  then show ?thesis
    by (simp add: onmessage_def Let_def processQueue_take_drop split: option.splits)
next
  case (TimerFires i)
  assume "0 \<le> inFlight s"
  then show ?thesis using TimerFires
    by (simp add: timerFires_def Let_def processQueue_take_drop split: option.splits)
next
  case WorkerError
  then show ?thesis by (simp add: onerror_def)
next
  case Terminate
  then show ?thesis by (simp add: terminate_def)
qed

lemma run_inFlight_nonneg: "0 \<le> inFlight s \<Longrightarrow> 0 \<le> inFlight (run s evs)"
  by (induction evs rule: rev_induct) (simp_all add: run_def step_inFlight_nonneg)

lemma timerFires_pending:
  assumes "map_of (pending s) i = Some p"
  shows "timerFires i s =
     (processQueue (s\<lparr>pending := AList.delete i (pending s), inFlight := max 0 (inFlight s - 1)\<rparr>))
       \<lparr>settled := settled s @ [(i, Rejected (''Worker request timeout: '' @ req_type p))]\<rparr>"
  using assms by (simp add: timerFires_def Let_def processQueue_take_drop)

text \<open>
  Claim C6. When the timer of a request \<open>i\<close> fires while \<open>i\<close> is still pending (no response,
  worker error or termination has removed it), the promise is rejected with the timeout
  error naming the request type, the pending entry of \<open>i\<close> is gone, the in-flight counter is
  decremented (\<^verbatim>\<open>Math.max(0, inFlight - 1)\<close>) and the queue is advanced by as many sends as
  now fit. The timer is armed with the per-call delay, or with the client's default, which
  is 30000 ms unless the constructor was given another. A request that times out in a
  reachable state leaves \<open>getQueueStatus\<close> exactly as it was before the request.
\<close>

theorem request_timeout_reclaims_slot:
  fixes s s0 :: "('p, 'r) WorkerClient"
  assumes "map_of (pending s) i = Some p"
    and "s0 = run (newClient t m) evs"
  shows "settled (timerFires i s) =
           settled s @ [(i, Rejected (''Worker request timeout: '' @ req_type p))] \<and>
         map_of (pending (timerFires i s)) i = None \<and>
         (let k = dispatchCount (s\<lparr>inFlight := max 0 (inFlight s - 1)\<rparr>) in
            getQueueStatus (timerFires i s) = (max 0 (inFlight s - 1) + int k, length (queue s) - k) \<and>
            queue (timerFires i s) = drop k (queue s) \<and>
            fired (timerFires i s) = fired s @ take k (queue s)) \<and>
         map_of (pending (request ty pl topt now s0)) (nextRequestId s0 now) =
           Some \<lparr>req_type = ty,
                 req_delay = (case topt of None \<Rightarrow> defaultTimeout s0 | Some d \<Rightarrow> d)\<rparr> \<and>
         defaultTimeout (newClient None m :: ('p, 'r) WorkerClient) = 30000 \<and>
         getQueueStatus (timerFires (nextRequestId s0 now) (request ty pl topt now s0)) =
           getQueueStatus s0"
proof -
  let ?d = "s\<lparr>pending := AList.delete i (pending s), inFlight := max 0 (inFlight s - 1)\<rparr>"
  have tf: "timerFires i s =
      (processQueue ?d)\<lparr>settled := settled s @ [(i, Rejected (''Worker request timeout: '' @ req_type p))]\<rparr>"
    using assms(1) by (rule timerFires_pending)
  have dc: "dispatchCount ?d = dispatchCount (s\<lparr>inFlight := max 0 (inFlight s - 1)\<rparr>)"
    by (simp add: dispatchCount_def)
  have pq: "fired (processQueue ?d) = fired ?d @ take (dispatchCount ?d) (queue ?d)"
    "queue (processQueue ?d) = drop (dispatchCount ?d) (queue ?d)"
    "inFlight (processQueue ?d) = inFlight ?d + int (dispatchCount ?d)"
    "pending (processQueue ?d) = pending ?d" "settled (processQueue ?d) = settled ?d"
    using processQueue_take_drop [of ?d] by blast+
  have a: "settled (timerFires i s) =
           settled s @ [(i, Rejected (''Worker request timeout: '' @ req_type p))]"
    by (simp add: tf)
  have b: "map_of (pending (timerFires i s)) i = None"
    by (simp add: tf pq delete_conv')
  have c: "let k = dispatchCount (s\<lparr>inFlight := max 0 (inFlight s - 1)\<rparr>) in
            getQueueStatus (timerFires i s) = (max 0 (inFlight s - 1) + int k, length (queue s) - k) \<and>
            queue (timerFires i s) = drop k (queue s) \<and>
            fired (timerFires i s) = fired s @ take k (queue s)"
  proof -
    have fs: "fired (timerFires i s) = fired (processQueue ?d)"
      by (simp add: tf fired_def)
    have fd: "fired ?d = fired s"
      by (simp add: fired_def)
    show ?thesis
      unfolding Let_def dc [symmetric] fs
      by (simp add: tf pq fd getQueueStatus_def)
  qed
  let ?r = "request ty pl topt now s0"
  let ?j = "nextRequestId s0 now"
  let ?e = "\<lparr>req_type = ty, req_delay = (case topt of None \<Rightarrow> defaultTimeout s0 | Some d \<Rightarrow> d)\<rparr>"
  have d: "map_of (pending ?r) ?j = Some ?e"
    by (simp add: request_def nextRequestId_def Let_def update_conv')
  have e: "defaultTimeout (newClient None m :: ('p, 'r) WorkerClient) = 30000"
    by (simp add: newClient_def)
  have nn: "0 \<le> inFlight s0"
    unfolding assms(2) by (rule run_inFlight_nonneg) (simp add: newClient_def)
  have bp: "backpressure_ok s0"
    unfolding assms(2) by (rule run_backpressure) (rule newClient_backpressure)
  let ?d0 = "?r\<lparr>pending := AList.delete ?j (pending ?r), inFlight := max 0 (inFlight ?r - 1)\<rparr>"
  have q0: "queue ?d0 = queue s0" "inFlight ?d0 = inFlight s0" "maxConcurrent ?d0 = maxConcurrent s0"
    using nn by (simp_all add: request_def Let_def)
  have "dispatchCount ?d0 = 0"
    using bp by (auto simp: dispatchCount_def q0 backpressure_ok_def)
  with processQueue_take_drop [of ?d0]
  have "queue (processQueue ?d0) = queue s0" "inFlight (processQueue ?d0) = inFlight s0"
    by (simp_all add: q0)
  then have f: "getQueueStatus (timerFires ?j ?r) = getQueueStatus s0"
    by (simp add: timerFires_pending [OF d] getQueueStatus_def)
  from a b c d e f show ?thesis by blast
qed

text \<open>The scenario of the specification: a search request with a 10 ms timer and no reply.\<close>

theorem request_timeout_reclaims_slot_witness:
  "map_of (pending (request ''SEARCH'' (0::nat) (Some 10) 1700000000000
             (newClient None None :: (nat, unit) WorkerClient))) (ReqId 1 1700000000000)
     = Some \<lparr>req_type = ''SEARCH'', req_delay = 10\<rparr> \<and>
   settled (timerFires (ReqId 1 1700000000000)
      (request ''SEARCH'' (0::nat) (Some 10) 1700000000000
         (newClient None None :: (nat, unit) WorkerClient)))
     = [(ReqId 1 1700000000000, Rejected ''Worker request timeout: SEARCH'')] \<and>
   getQueueStatus (timerFires (ReqId 1 1700000000000)
      (request ''SEARCH'' (0::nat) (Some 10) 1700000000000
         (newClient None None :: (nat, unit) WorkerClient))) = (0, 0)"
proof -
  let ?c = "newClient None None :: (nat, unit) WorkerClient"
  let ?q = "request ''SEARCH'' (0::nat) (Some 10) 1700000000000 ?c"
  have p: "map_of (pending ?q) (ReqId 1 1700000000000)
             = Some \<lparr>req_type = ''SEARCH'', req_delay = 10\<rparr>"
    by (simp add: request_def newClient_def Let_def)
  have r: "?c = run (newClient None None) []"
    by (simp add: run_def)
  have n: "nextRequestId ?c 1700000000000 = ReqId 1 1700000000000"
    by (simp add: nextRequestId_def newClient_def)
  have g: "getQueueStatus ?c = (0, 0)" "settled ?q = []"
    by (simp_all add: getQueueStatus_def newClient_def request_def Let_def)
  from request_timeout_reclaims_slot
         [where ty = "''SEARCH''" and pl = 0 and topt = "Some 10" and now = 1700000000000, OF p r]
  show ?thesis unfolding n g using p by simp
qed

subsection \<open>Requests and the cap\<close>

text \<open>
  Claim C9. \<open>request\<close> never consults \<open>maxConcurrent\<close> or the queue: a run of \<open>k\<close> requests
  with nothing in between posts \<open>k\<close> messages at once, adds \<open>k\<close> to the in-flight counter
  and leaves the queue as it was, whatever \<open>maxConcurrent\<close> is.
\<close>

theorem request_bypasses_cap:
  fixes s :: "('p, 'r) WorkerClient"
  assumes "\<forall>e\<in>set evs. is_request e"
  shows "inFlight (run s evs) = inFlight s + int (length evs) \<and>
         length (posted (run s evs)) = length (posted s) + length evs \<and>
         queue (run s evs) = queue s \<and>
         length (filter (\<lambda>m. \<not> is_fire m) (posted (run s evs))) =
           length (filter (\<lambda>m. \<not> is_fire m) (posted s)) + length evs"
  using assms
proof (induction evs rule: rev_induct)
  case Nil
  show ?case by (simp add: run_def)
next
  case (snoc e evs)
  then obtain ty pl topt now where e: "e = Request ty pl topt now"
    by (cases e) auto
  from snoc show ?case
    by (simp add: run_snoc e request_def Let_def)
qed

theorem request_bypasses_cap_witness:
  "list_all is_request elevenRequests \<and>
   maxConcurrent (newClient None None :: (nat, unit) WorkerClient) = 10 \<and>
   inFlight (run (newClient None None) elevenRequests) = 11 \<and>
   queue (run (newClient None None) elevenRequests) = []"
proof -
  have h: "\<forall>e\<in>set elevenRequests. is_request e"
    by (simp add: elevenRequests_def)
  from request_bypasses_cap [OF h, of "newClient None None"] h
  show ?thesis by (simp add: newClient_def elevenRequests_def list_all_iff)
qed

section \<open>Properties: Vector index worker (workers/rag.worker.ts)\<close>

subsection \<open>The index invariant\<close>















subsection \<open>Rounding without overflow\<close>


lemma maxSingle_nonneg: "0 \<le> maxSingle"
  by (simp add: maxSingle_def)


lemma isDouble_mult:
  assumes "n < 2 ^ 53" "k \<le> 971"
  shows "isDouble (real n * 2 ^ k)"
proof -
  have "\<bar>int n\<bar> < 2 ^ 53" using assms(1) by simp
  moreover have "k + 1074 \<le> 2045" using assms(2) by simp
  moreover have "real n * 2 ^ k = of_int (int n) * 2 ^ (k + 1074) / 2 ^ 1074"
    by (simp add: power_add)
  ultimately show ?thesis unfolding isDouble_def by blast
qed

lemma isDouble_pow2: "k \<le> 971 \<Longrightarrow> isDouble (2 ^ k)"
  using isDouble_mult [of 1 k] by simp

lemma isDouble_zero: "isDouble 0"
  using isDouble_mult [of 0 0] by simp


lemma isDouble_small: "isDouble (1 / 2 ^ 27)"
proof -
  have "\<bar>1::int\<bar> < 2 ^ 53" "(1047::nat) \<le> 2045" by simp_all
  moreover have "(1::real) / 2 ^ 27 = of_int 1 * 2 ^ 1047 / 2 ^ 1074"
  proof -
    have "(2::real) ^ 1074 = 2 ^ 1047 * 2 ^ 27" by (simp add: power_add [symmetric])
    then show ?thesis by simp
  qed
  ultimately show ?thesis unfolding isDouble_def by blast
qed

lemma rnd_mono: "rounding_ok rd \<Longrightarrow> x \<le> y \<Longrightarrow> rnd rd x \<le> rnd rd y"
  by (auto simp: rounding_ok_def mono_def)

lemma rnd_double: "rounding_ok rd \<Longrightarrow> isDouble x \<Longrightarrow> rnd rd x = x"
  by (simp add: rounding_ok_def)

lemma rnd_idem: "rounding_ok rd \<Longrightarrow> rnd rd (rnd rd x) = rnd rd x"
  by (simp add: rounding_ok_def)

lemma rnd_zero: "rounding_ok rd \<Longrightarrow> rnd rd 0 = 0"
  by (simp add: rnd_double isDouble_zero)

lemma rnd_nonneg: "rounding_ok rd \<Longrightarrow> 0 \<le> x \<Longrightarrow> 0 \<le> rnd rd x"
  using rnd_mono [of rd 0 x] by (simp add: rnd_zero)


lemma rnd_small:
  assumes ok: "rounding_ok rd"
  shows "1 / 2 ^ 27 \<le> rnd rd (1 / 10 ^ 8)" "rnd rd (1 / 10 ^ 8) \<le> 1"
proof -
  have e: "rnd rd (1 / 2 ^ 27) = 1 / 2 ^ 27" using ok isDouble_small by (rule rnd_double)
  have "rnd rd (1 / 2 ^ 27) \<le> rnd rd (1 / 10 ^ 8)" using ok by (rule rnd_mono) simp
  then show "1 / 2 ^ 27 \<le> rnd rd (1 / 10 ^ 8)" unfolding e .
  have "isDouble 1" using isDouble_pow2 [of 0] by simp
  with ok have "rnd rd 1 = 1" by (rule rnd_double)
  moreover have "rnd rd (1 / 10 ^ 8) \<le> rnd rd 1" using ok by (rule rnd_mono) simp
  ultimately show "rnd rd (1 / 10 ^ 8) \<le> 1" by simp
qed





subsection \<open>Search\<close>












text \<open>The divisor of the similarity is never a zero, whatever the vectors hold.\<close>

lemma toDouble_nonneg:
  assumes "rounding_ok rd" "0 \<le> x"
  shows "toDouble rd x = Infinity \<or> (\<exists>r. toDouble rd x = Num r \<and> 0 \<le> r)"
proof -
  have "0 \<le> rnd rd x" using assms by (rule rnd_nonneg)
  moreover have "0 \<le> maxDouble" by (simp add: maxDouble_def)
  ultimately show ?thesis by (auto simp: toDouble_def overflow_def)
qed

lemma jssqrt_nonneg:
  assumes "rounding_ok rd"
  shows "jssqrt rd a = NaN \<or> jssqrt rd a = Infinity \<or> (\<exists>r. jssqrt rd a = Num r \<and> 0 \<le> r)"
proof (cases a)
  case (Num x)
  then show ?thesis using toDouble_nonneg [OF assms, of "sqrt x"] by auto
qed simp_all

lemma divisor_not_zero:
  assumes ok: "rounding_ok rd"
  shows "jsadd rd (jsmul rd (jssqrt rd a) (jssqrt rd b)) (Num (rnd rd (1 / 10 ^ 8))) \<noteq> Num 0"
proof -
  define e where "e = rnd rd (1 / 10 ^ 8)"
  have ep: "0 < e" using rnd_small(1) [OF ok] unfolding e_def by (rule less_le_trans [rotated]) simp
  have ee: "rnd rd e = e" using ok by (simp add: e_def rnd_idem)
  have fin: "jsadd rd (Num p) (Num e) \<noteq> Num 0" if "0 \<le> p" for p
  proof -
    have "rnd rd e \<le> rnd rd (p + e)" using ok by (rule rnd_mono) (use that in simp)
    then have "0 < rnd rd (p + e)" using ep ee by simp
    then show ?thesis by (auto simp: toDouble_def overflow_def)
  qed
  have prod: "jsmul rd x y = NaN \<or> jsmul rd x y = Infinity \<or>
              (\<exists>r. jsmul rd x y = Num r \<and> 0 \<le> r)"
    if "x = NaN \<or> x = Infinity \<or> (\<exists>r. x = Num r \<and> 0 \<le> r)"
       "y = NaN \<or> y = Infinity \<or> (\<exists>r. y = Num r \<and> 0 \<le> r)" for x y
    using that toDouble_nonneg [OF ok]
    by (cases x; cases y) (auto simp: infinityOf_def)
  from prod [OF jssqrt_nonneg [OF ok, of a] jssqrt_nonneg [OF ok, of b]]
  show ?thesis unfolding e_def [symmetric] using fin by auto
qed


























lemma decimal_digit: "n < 10 \<Longrightarrow> decimal n = [''0123456789'' ! n]"
  by (simp add: decimal.simps)

subsection \<open>A query of another length\<close>





subsection \<open>Insert with a wrong dimension\<close>

text \<open>
  When \<^verbatim>\<open>dimension\<close> is not zero, an \<^verbatim>\<open>INDEX_CHUNK\<close> message whose embedding has another
  length is answered with the error \<^verbatim>\<open>Dimension mismatch: expected <dimension>, got <length>\<close>
  under the id of the message, and the state is the state before the message.
\<close>

lemma indexChunk_mismatch:
  assumes "dimension s \<noteq> 0" and "length e \<noteq> dimension s"
  shows "ragOnmessage rd s (i, INDEX_CHUNK c t e) =
           (s, [replyError i (''Dimension mismatch: expected '' @ decimal (dimension s)
                               @ '', got '' @ decimal (length e))])"
  using assms by (simp add: indexChunk_def Let_def)

lemma afterPairInsert_mismatch:
  "dimension afterPairInsert = 2 \<and> count afterPairInsert = 1 \<and>
   ragOnmessage exact afterPairInsert (FireId 2, INDEX_CHUNK (js ''e1'') [] [Num 1, Num 2, Num 3]) =
     (afterPairInsert, [replyError (FireId 2) ''Dimension mismatch: expected 2, got 3''])"
proof -
  have f: "dimension afterPairInsert = 2" "count afterPairInsert = 1"
    by (simp_all add: afterPairInsert_def indexChunk_def initialRag_def Let_def typedArraySet_def)
  have t: "decimal 2 = ''2''" "decimal (Suc (Suc (Suc 0))) = ''3''"
    by (simp_all add: decimal_digit)
  from indexChunk_mismatch [of afterPairInsert "[Num 1, Num 2, Num 3]" exact "FireId 2" "js ''e1''" "[]"]
  show ?thesis by (simp add: f t)
qed

text \<open>
  Claim C2. The dimension is latched by the test \<^verbatim>\<open>dimension === 0\<close>, in which zero stands
  both for no dimension yet and for the length of an empty embedding. A first insert with an
  empty embedding is accepted (\<open>count\<close> becomes 1) and leaves \<^verbatim>\<open>dimension\<close> at zero; the
  insert that follows, of length 3, differs in length from the first, yet it is not
  answered with an error: there is no reply, \<open>count\<close> becomes 2, the id is added and the
  dimension becomes 3.
\<close>

theorem dimension_latch_missed:
  "count afterEmptyInsert = 1 \<and> dimension afterEmptyInsert = 0 \<and>
   ids afterEmptyInsert = [js ''e0''] \<and>
   length [Num 1, Num 2, Num 3] \<noteq> length ([] :: number list) \<and>
   snd (ragOnmessage exact afterEmptyInsert
          (FireId 2, INDEX_CHUNK (js ''e1'') [] [Num 1, Num 2, Num 3])) = [] \<and>
   dimension (fst (ragOnmessage exact afterEmptyInsert
          (FireId 2, INDEX_CHUNK (js ''e1'') [] [Num 1, Num 2, Num 3]))) = 3 \<and>
   count (fst (ragOnmessage exact afterEmptyInsert
          (FireId 2, INDEX_CHUNK (js ''e1'') [] [Num 1, Num 2, Num 3]))) = 2 \<and>
   ids (fst (ragOnmessage exact afterEmptyInsert
          (FireId 2, INDEX_CHUNK (js ''e1'') [] [Num 1, Num 2, Num 3])))
     = [js ''e0'', js ''e1'']"
proof -
  have a: "afterEmptyInsert = \<lparr>vectors = Some [], ids = [js ''e0''], dimension = 0, count = 1\<rparr>"
    by (simp add: afterEmptyInsert_def indexChunk_def initialRag_def Let_def typedArraySet_def)
  show ?thesis
    unfolding a by (simp add: indexChunk_def Let_def typedArraySet_def)
qed

subsection \<open>The search postcondition\<close>













section \<open>Properties: Chunker (workers/parser.worker.ts)\<close>

subsection \<open>The windows of a chapter\<close>

lemma windowCount_less: "0 < stride \<Longrightarrow> k < windowCount n stride \<longleftrightarrow> k * stride < n"
proof -
  assume s: "0 < stride"
  have "k < windowCount n stride \<longleftrightarrow> Suc k \<le> (n + stride - 1) div stride"
    by (simp add: windowCount_def Suc_le_eq)
  also have "\<dots> \<longleftrightarrow> Suc k * stride \<le> n + stride - 1"
    using s by (rule less_eq_div_iff_mult_less_eq)
  also have "\<dots> \<longleftrightarrow> k * stride < n"
    using s by auto
  finally show ?thesis .
qed

lemma jsSlice_window:
  assumes "s < length t" "0 < width"
  shows "jsSlice t (int s) (min (int s + int width) (int (length t))) = take width (drop s t)"
proof (cases "s + width \<le> length t")
  case True
  then have "min (int s + int width) (int (length t)) = int (s + width)" by simp
  then show ?thesis using assms by (simp add: jsSlice_def Let_def)
next
  case False
  then have "min (int s + int width) (int (length t)) = int (length t)" by simp
  moreover have "nat (int (length t) - int s) = length t - s" by simp
  moreover have "take (length t - s) (drop s t) = take width (drop s t)" using False by simp
  ultimately show ?thesis using assms by (simp add: jsSlice_def Let_def)
qed

lemma chunkLoop_windows:
  assumes ov: "0 \<le> overlap" "overlap < chunkSize"
    and st: "stride = nat (chunkSize - overlap)"
    and k: "k \<le> windowCount (length t) stride"
  shows "chunkLoop t chapter chunkSize overlap (int (k * stride)) k acc =
         Some (acc @ map (windowAt t chapter (nat chunkSize) stride) [k..<windowCount (length t) stride])"
  using k
proof (induction "windowCount (length t) stride - k" arbitrary: k acc)
  case 0
  then have keq: "k = windowCount (length t) stride" by simp
  have sp: "0 < stride" using ov st by simp
  have "\<not> k * stride < length t"
    using windowCount_less [OF sp, of k "length t"] keq by simp
  then show ?case
    by (subst chunkLoop.simps) (simp add: keq del: of_nat_mult)
next
  case (Suc d)
  then have kl: "k < windowCount (length t) stride" by simp
  have sp: "0 < stride" using ov st by simp
  have lt: "k * stride < length t"
    using windowCount_less [OF sp, of k "length t"] kl by simp
  have cs: "0 < nat chunkSize" "int (nat chunkSize) = chunkSize" using ov by simp_all
  have sl: "jsSlice t (int (k * stride)) (min (int (k * stride) + chunkSize) (int (length t))) =
            take (nat chunkSize) (drop (k * stride) t)"
    using jsSlice_window [OF lt cs(1), unfolded cs(2)] .
  have nx: "int (k * stride) + (chunkSize - overlap) = int (Suc k * stride)"
    using ov st by (simp add: algebra_simps)
  have d: "d = windowCount (length t) stride - Suc k" using Suc.hyps(2) by simp
  have ih: "chunkLoop t chapter chunkSize overlap (int (Suc k * stride)) (Suc k)
              (acc @ [windowAt t chapter (nat chunkSize) stride k]) =
            Some ((acc @ [windowAt t chapter (nat chunkSize) stride k]) @
                  map (windowAt t chapter (nat chunkSize) stride) [Suc k..<windowCount (length t) stride])"
    using Suc.hyps(1) [OF d] kl by simp
  have "chunkLoop t chapter chunkSize overlap (int (k * stride)) k acc =
        chunkLoop t chapter chunkSize overlap (int (Suc k * stride)) (Suc k)
              (acc @ [windowAt t chapter (nat chunkSize) stride k])"
    using lt by (subst chunkLoop.simps) (simp add: Let_def sl nx windowAt_def del: mult_Suc of_nat_mult)
  also note ih
  finally show ?case
    using kl by (simp add: upt_conv_Cons)
qed

lemma chunkChapters_windows:
  assumes ov: "0 \<le> overlap" "overlap < chunkSize"
  shows "chunkChapters chapters chunkSize overlap acc =
         Some (acc @ concat (map (chapterChunks chunkSize overlap) chapters))"
proof (induction chapters arbitrary: acc)
  case Nil
  show ?case by simp
next
  case (Cons ch rest)
  show ?case
  proof (cases "length (cleanHtml (body ch)) < 50")
    case True
    then show ?thesis by (simp add: Cons.IH chapterChunks_def Let_def)
  next
    case False
    have "chunkLoop (cleanHtml (body ch)) ch chunkSize overlap 0 0 acc =
          Some (acc @ chapterChunks chunkSize overlap ch)"
      using chunkLoop_windows [OF ov refl, of 0 "cleanHtml (body ch)" ch acc] False
      by (simp add: chapterChunks_def Let_def)
    then show ?thesis using False by (simp add: Cons.IH Let_def)
  qed
qed

lemma chapterChunks_length:
  assumes "0 \<le> overlap" "overlap < chunkSize" "c \<in> set (chapterChunks chunkSize overlap chapter)"
  shows "int (length (content c)) \<le> chunkSize"
  using assms by (auto simp: chapterChunks_def Let_def windowAt_def split: if_splits)

lemma chapterChunks_overlap:
  assumes ov: "0 \<le> overlap" "overlap < chunkSize"
    and k: "Suc k < length (chapterChunks chunkSize overlap chapter)"
    and full: "int (length (content (chapterChunks chunkSize overlap chapter ! k))) = chunkSize"
  shows "overlapsBy (nat overlap)
           (content (chapterChunks chunkSize overlap chapter ! k))
           (content (chapterChunks chunkSize overlap chapter ! Suc k))"
proof -
  define t where "t = cleanHtml (body chapter)"
  define stride where "stride = nat (chunkSize - overlap)"
  define width where "width = nat chunkSize"
  define ovl where "ovl = nat overlap"
  have so: "width = stride + ovl" using ov by (simp add: width_def stride_def ovl_def)
  have long: "\<not> length t < 50" using k by (auto simp: chapterChunks_def t_def Let_def)
  then have cc: "chapterChunks chunkSize overlap chapter =
      map (windowAt t chapter width stride) [0..<windowCount (length t) stride]"
    by (simp add: chapterChunks_def Let_def t_def stride_def width_def)
  from k have k1: "Suc k < windowCount (length t) stride" by (simp add: cc)
  then have k0: "k < windowCount (length t) stride" by simp
  have a: "content (chapterChunks chunkSize overlap chapter ! k) = take width (drop (k * stride) t)"
    using k0 by (simp add: cc windowAt_def)
  have b: "content (chapterChunks chunkSize overlap chapter ! Suc k) =
           take width (drop (Suc k * stride) t)"
    using k1 by (simp add: cc windowAt_def del: mult_Suc)
  from full have fl: "length (take width (drop (k * stride) t)) = width"
    using ov by (simp add: a width_def)
  have wp: "0 < width" using ov by (simp add: width_def)
  have room: "k * stride + width \<le> length t"
    using fl wp by (auto simp: min_def split: if_splits)
  have la: "length (take width (drop (k * stride) t)) - ovl = stride" using fl so by simp
  have "drop stride (take width (drop (k * stride) t)) = take ovl (drop (Suc k * stride) t)"
    by (simp add: drop_take so add.commute)
  moreover have "take ovl (take width (drop (Suc k * stride) t)) = take ovl (drop (Suc k * stride) t)"
    using so by (simp add: min_def)
  moreover have "ovl \<le> length (take width (drop (Suc k * stride) t))"
    using room so by simp
  moreover have "ovl \<le> length (take width (drop (k * stride) t))" using fl so by simp
  ultimately show ?thesis
    unfolding a b overlapsBy_def la ovl_def [symmetric] by simp
qed

text \<open>
  Two chunks that follow each other share what the first has beyond the stride: the whole
  \<open>overlap\<close> when the first is full, less when the end of the text cuts it short.
\<close>

lemma chapterChunks_shared:
  assumes ov: "0 \<le> overlap" "overlap < chunkSize"
    and k: "Suc k < length (chapterChunks chunkSize overlap chapter)"
  shows "overlapsBy (length (content (chapterChunks chunkSize overlap chapter ! k))
                      - nat (chunkSize - overlap))
           (content (chapterChunks chunkSize overlap chapter ! k))
           (content (chapterChunks chunkSize overlap chapter ! Suc k))"
    and "int (length (content (chapterChunks chunkSize overlap chapter ! k))) < chunkSize \<longrightarrow>
         int (length (content (chapterChunks chunkSize overlap chapter ! k))
              - nat (chunkSize - overlap)) < overlap"
proof -
  define t where "t = cleanHtml (body chapter)"
  define stride where "stride = nat (chunkSize - overlap)"
  define width where "width = nat chunkSize"
  define ovl where "ovl = nat overlap"
  have so: "width = stride + ovl" using ov by (simp add: width_def stride_def ovl_def)
  have sp: "0 < stride" using ov by (simp add: stride_def)
  have long: "\<not> length t < 50" using k by (auto simp: chapterChunks_def t_def Let_def)
  then have cc: "chapterChunks chunkSize overlap chapter =
      map (windowAt t chapter width stride) [0..<windowCount (length t) stride]"
    by (simp add: chapterChunks_def Let_def t_def stride_def width_def)
  from k have k1: "Suc k < windowCount (length t) stride" by (simp add: cc)
  then have k0: "k < windowCount (length t) stride" by simp
  have a: "content (chapterChunks chunkSize overlap chapter ! k) = take width (drop (k * stride) t)"
    using k0 by (simp add: cc windowAt_def)
  have b: "content (chapterChunks chunkSize overlap chapter ! Suc k) =
           take width (drop (Suc k * stride) t)"
    using k1 by (simp add: cc windowAt_def del: mult_Suc)
  have next_in: "k * stride + stride < length t"
    using windowCount_less [OF sp, of "Suc k" "length t"] k1 by simp
  define first where "first = take width (drop (k * stride) t)"
  define second where "second = take width (drop (k * stride + stride) t)"
  define la where "la = length first"
  have la: "la = min width (length t - k * stride)" by (simp add: la_def first_def)
  have ge: "stride \<le> la" using next_in so by (simp add: la)
  have d1: "drop stride first = take ovl (drop (k * stride + stride) t)"
    by (simp add: first_def drop_take so add.commute)
  have d2: "take (la - stride) second = take (la - stride) (drop (k * stride + stride) t)"
    using so by (auto simp: second_def la min_def)
  have d3: "take ovl (drop (k * stride + stride) t) = take (la - stride) (drop (k * stride + stride) t)"
  proof (cases "width \<le> length t - k * stride")
    case True
    then show ?thesis using so by (simp add: la)
  next
    case False
    then have "la - stride = length (drop (k * stride + stride) t)" by (simp add: la)
    moreover have "length (drop (k * stride + stride) t) \<le> ovl" using False so by simp
    ultimately show ?thesis by simp
  qed
  have lb: "la - stride \<le> length second"
    using so by (auto simp: second_def la min_def)
  have "overlapsBy (la - stride) first second"
    unfolding overlapsBy_def
  proof (intro conjI)
    show "la - stride \<le> length first" by (simp add: la_def)
    show "la - stride \<le> length second" by (rule lb)
    have "length first - (la - stride) = stride" using ge by (simp add: la_def)
    then show "drop (length first - (la - stride)) first = take (la - stride) second"
      by (simp only: d1 d2 d3)
  qed
  then show "overlapsBy (length (content (chapterChunks chunkSize overlap chapter ! k))
                      - nat (chunkSize - overlap))
           (content (chapterChunks chunkSize overlap chapter ! k))
           (content (chapterChunks chunkSize overlap chapter ! Suc k))"
    unfolding a b by (simp add: first_def second_def la_def stride_def add.commute)
  show "int (length (content (chapterChunks chunkSize overlap chapter ! k))) < chunkSize \<longrightarrow>
         int (length (content (chapterChunks chunkSize overlap chapter ! k))
              - nat (chunkSize - overlap)) < overlap"
    using ge ov unfolding a la_def first_def stride_def by auto
qed

lemma chapterChunks_short:
  "length (cleanHtml (body chapter)) < 50 \<Longrightarrow> chapterChunks chunkSize overlap chapter = []"
  by (simp add: chapterChunks_def)

subsection \<open>A step that does not advance\<close>

text \<open>
  With \<open>chunkSize \<le> overlap\<close> the start of the window never moves forward, and the loop,
  once entered, has no result.
\<close>

lemma chunkLoop_no_result:
  assumes "chunkLoop t ch chunkSize overlap start k acc = Some y"
  shows "overlap < chunkSize \<or> \<not> start < int (length t)"
proof (rule chunkLoop.raw_induct
    [where P = "\<lambda>t ch chunkSize overlap start k acc y.
                  overlap < chunkSize \<or> \<not> start < int (length t)", OF _ assms])
  fix loop :: "jsstring \<Rightarrow> BookSection \<Rightarrow> int \<Rightarrow> int \<Rightarrow> int \<Rightarrow> nat \<Rightarrow> TextChunk list
                 \<Rightarrow> TextChunk list option"
  fix t ch chunkSize overlap start k acc y
  assume ih: "\<And>t ch chunkSize overlap start k acc y.
      loop t ch chunkSize overlap start k acc = Some y \<Longrightarrow>
      overlap < chunkSize \<or> \<not> start < int (length t)"
  assume eq: "(if start < int (length t)
      then let end = min (start + chunkSize) (int (length t));
               content = jsSlice t start end;
               chunk = \<lparr>chunk_id = section_id ch @ js ''-chunk-'' @ js (decimal k),
                         chapterId = section_id ch, chapterTitle = title ch,
                         content = content\<rparr>
           in loop t ch chunkSize overlap (start + (chunkSize - overlap)) (k + 1) (acc @ [chunk])
      else Some acc) = Some y"
  show "overlap < chunkSize \<or> \<not> start < int (length t)"
  proof (cases "start < int (length t) \<and> chunkSize \<le> overlap")
    case True
    with eq obtain c where
      "loop t ch chunkSize overlap (start + (chunkSize - overlap)) (k + 1) (acc @ [c]) = Some y"
      by (simp add: Let_def)
    from ih [OF this] True show ?thesis by auto
  next
    case False
    then show ?thesis by auto
  qed
qed

lemma chunkLoop_diverges:
  assumes "chunkSize \<le> overlap" "start < int (length t)"
  shows "chunkLoop t ch chunkSize overlap start k acc = None"
proof (cases "chunkLoop t ch chunkSize overlap start k acc")
  case None
  then show ?thesis .
next
  case (Some y)
  from chunkLoop_no_result [OF this] assms show ?thesis by simp
qed

lemma chunkChapters_diverges:
  assumes "chunkSize \<le> overlap" "\<exists>ch\<in>set chapters. 50 \<le> length (cleanHtml (body ch))"
  shows "chunkChapters chapters chunkSize overlap acc = None"
  using assms(2)
proof (induction chapters arbitrary: acc)
  case Nil
  then show ?case by simp
next
  case (Cons ch rest)
  show ?case
  proof (cases "length (cleanHtml (body ch)) < 50")
    case True
    with Cons.prems have "\<exists>ch\<in>set rest. 50 \<le> length (cleanHtml (body ch))" by auto
    from Cons.IH [OF this] True show ?thesis by (simp add: Let_def)
  next
    case False
    then have "0 < int (length (cleanHtml (body ch)))" by (cases "cleanHtml (body ch)") simp_all
    from chunkLoop_diverges [OF assms(1) this] False show ?thesis by (simp add: Let_def)
  qed
qed

lemma chunkChapters_all_short:
  assumes "\<forall>ch\<in>set chapters. length (cleanHtml (body ch)) < 50"
  shows "chunkChapters chapters chunkSize overlap acc = Some acc"
  using assms by (induction chapters arbitrary: acc) (simp_all add: Let_def)

lemma stripTags_plain: "\<forall>c\<in>set s. c \<noteq> 0x3C \<Longrightarrow> stripTags s = s"
  by (induction s) simp_all

lemma collapseSpaces_plain: "\<forall>c\<in>set s. \<not> isSpace c \<Longrightarrow> collapseSpaces s = s"
  by (induction s) simp_all

lemma dropWhile_plain: "\<forall>c\<in>set s. \<not> P c \<Longrightarrow> dropWhile P s = s"
  by (cases s) simp_all

lemma cleanHtml_plain:
  assumes "\<forall>c\<in>set s. c \<noteq> 0x3C \<and> \<not> isSpace c"
  shows "cleanHtml s = s"
proof -
  have a: "stripTags s = s" using assms by (intro stripTags_plain) simp
  have b: "collapseSpaces s = s" using assms by (intro collapseSpaces_plain) simp
  have c: "dropWhile isSpace s = s" using assms by (intro dropWhile_plain) simp
  have d: "dropWhile isSpace (rev s) = rev s" using assms by (intro dropWhile_plain) simp
  show ?thesis by (simp add: cleanHtml_def trim_def a b c d)
qed

lemma fiftyLetters_clean: "cleanHtml (body fiftyLetters) = replicate 50 0x61"
  by (simp add: fiftyLetters_def cleanHtml_plain isSpace_def)

text \<open>
  Claim C4. The chunker has no check of its parameters. On a chapter of fifty letters with
  \<open>chunkSize = overlap = 60\<close> it does not reject the configuration: it never returns.
\<close>

theorem chunker_overlap_not_rejected:
  "(60::int) \<le> 60 \<and> length (cleanHtml (body fiftyLetters)) = 50 \<and>
   chunkBookContent [fiftyLetters] (Some 60) (Some 60) = None"
proof -
  have "\<exists>ch\<in>set [fiftyLetters]. 50 \<le> length (cleanHtml (body ch))"
    by (simp add: fiftyLetters_clean)
  then have "chunkChapters [fiftyLetters] 60 60 [] = None"
    by (intro chunkChapters_diverges) simp_all
  then show ?thesis by (simp add: chunkBookContent_def fiftyLetters_clean)
qed

subsection \<open>Valid parameters\<close>

text \<open>
  Claim C5 (as amended). For \<open>0 \<le> overlap < chunkSize\<close> the chunker returns, and its output
  is, chapter by chapter, the windows of the cleaned text (the same holds for the default
  parameters 800 and 100). Every chunk has at most \<open>chunkSize\<close> characters and carries the id
  of its chapter; whenever a chunk of a chapter has the full \<open>chunkSize\<close> characters and
  another chunk of the chapter follows it, the last \<open>overlap\<close> characters of the first are
  the first \<open>overlap\<close> characters of the second; in general, when a chunk of \<open>n\<close> characters
  is followed by another chunk of its chapter, the last \<open>n - (chunkSize - overlap)\<close>
  characters of the first are the first characters of the second, and this number is less
  than \<open>overlap\<close> when \<open>n < chunkSize\<close>; and a chapter whose cleaned text has fewer than 50
  characters gives no chunk.
\<close>

theorem chunker_windows:
  assumes "0 \<le> overlap" "overlap < chunkSize"
  shows "chunkBookContent chapters (Some chunkSize) (Some overlap) =
           Some (concat (map (chapterChunks chunkSize overlap) chapters)) \<and>
         chunkBookContent chapters None None =
           Some (concat (map (chapterChunks 800 100) chapters)) \<and>
         (\<forall>ch\<in>set chapters.
            (\<forall>c\<in>set (chapterChunks chunkSize overlap ch).
               int (length (content c)) \<le> chunkSize \<and> chapterId c = section_id ch) \<and>
            (\<forall>k. Suc k < length (chapterChunks chunkSize overlap ch) \<and>
                  int (length (content (chapterChunks chunkSize overlap ch ! k))) = chunkSize \<longrightarrow>
                  overlapsBy (nat overlap)
                    (content (chapterChunks chunkSize overlap ch ! k))
                    (content (chapterChunks chunkSize overlap ch ! Suc k))) \<and>
            (\<forall>k. Suc k < length (chapterChunks chunkSize overlap ch) \<longrightarrow>
                  overlapsBy (length (content (chapterChunks chunkSize overlap ch ! k))
                                - nat (chunkSize - overlap))
                    (content (chapterChunks chunkSize overlap ch ! k))
                    (content (chapterChunks chunkSize overlap ch ! Suc k)) \<and>
                  (int (length (content (chapterChunks chunkSize overlap ch ! k))) < chunkSize \<longrightarrow>
                     int (length (content (chapterChunks chunkSize overlap ch ! k))
                          - nat (chunkSize - overlap)) < overlap)) \<and>
            (length (cleanHtml (body ch)) < 50 \<longrightarrow> chapterChunks chunkSize overlap ch = []))"
proof -
  have a: "chunkBookContent chapters (Some chunkSize) (Some overlap) =
           Some (concat (map (chapterChunks chunkSize overlap) chapters))"
    using chunkChapters_windows [OF assms, of chapters "[]"] by (simp add: chunkBookContent_def)
  have b: "chunkBookContent chapters None None =
           Some (concat (map (chapterChunks 800 100) chapters))"
    using chunkChapters_windows [of 100 800 chapters "[]"] by (simp add: chunkBookContent_def)
  have c: "int (length (content c)) \<le> chunkSize \<and> chapterId c = section_id ch"
    if "c \<in> set (chapterChunks chunkSize overlap ch)" for c ch
    using chapterChunks_length [OF assms that] that
    by (auto simp: chapterChunks_def Let_def windowAt_def split: if_splits)
  have d: "overlapsBy (length (content (chapterChunks chunkSize overlap ch ! k))
                                - nat (chunkSize - overlap))
                    (content (chapterChunks chunkSize overlap ch ! k))
                    (content (chapterChunks chunkSize overlap ch ! Suc k)) \<and>
                  (int (length (content (chapterChunks chunkSize overlap ch ! k))) < chunkSize \<longrightarrow>
                     int (length (content (chapterChunks chunkSize overlap ch ! k))
                          - nat (chunkSize - overlap)) < overlap)"
    if "Suc k < length (chapterChunks chunkSize overlap ch)" for k ch
    using chapterChunks_shared [OF assms that] by simp
  show ?thesis
    using a b c d chapterChunks_overlap [OF assms] chapterChunks_short by blast
qed

lemma fiveBlocks_clean: "cleanHtml (body fiveBlocks) = body fiveBlocks"
  by (rule cleanHtml_plain) (simp add: fiveBlocks_def isSpace_def)

lemma fiveBlocks_length: "length (body fiveBlocks) = 50"
  by (simp add: fiveBlocks_def)

lemma shortSection_clean: "cleanHtml (body shortSection) = js ''too short''"
  by (simp add: shortSection_def cleanHtml_def trim_def js_def isSpace_def)

lemma upt4: "[0..<4] = [0, 1, 2, 3]" and upt5: "[0..<5] = [0, 1, 2, 3, 4]"
  by (simp_all add: upt_rec)

text \<open>
  Five blocks of ten letters with \<open>chunkSize = 20\<close> and \<open>overlap = 5\<close>, followed by a chapter
  that is too short.
\<close>

theorem chunker_windows_witness:
  "(0::int) \<le> 5 \<and> (5::int) < 20 \<and>
   chunkBookContent [fiveBlocks, shortSection] (Some 20) (Some 5) =
     Some (map (\<lambda>k. \<lparr> chunk_id = js ''c2-chunk-'' @ js (decimal k), chapterId = js ''c2'',
                        chapterTitle = js ''Blocks'',
                        content = take 20 (drop (15 * k) (body fiveBlocks)) \<rparr>) [0, 1, 2, 3]) \<and>
   overlapsBy 5 (take 20 (body fiveBlocks)) (take 20 (drop 15 (body fiveBlocks))) \<and>
   length (cleanHtml (body shortSection)) < 50"
proof -
  have h: "(0::int) \<le> 5" "(5::int) < 20" by simp_all
  have w: "chapterChunks 20 5 fiveBlocks =
      map (\<lambda>k. \<lparr> chunk_id = js ''c2-chunk-'' @ js (decimal k), chapterId = js ''c2'',
                        chapterTitle = js ''Blocks'',
                        content = take 20 (drop (15 * k) (body fiveBlocks)) \<rparr>) [0, 1, 2, 3]"
    by (simp add: chapterChunks_def Let_def fiveBlocks_clean fiveBlocks_length windowCount_def
          upt4 windowAt_def)
       (simp add: fiveBlocks_def js_def)
  have s: "chapterChunks 20 5 shortSection = []"
    by (simp add: chapterChunks_def shortSection_clean js_def)
  have o: "overlapsBy 5 (take 20 (body fiveBlocks)) (take 20 (drop 15 (body fiveBlocks)))"
    by (simp add: overlapsBy_def fiveBlocks_def)
  from chunker_windows [OF h, of "[fiveBlocks, shortSection]"] w s o
  show ?thesis by (simp add: shortSection_clean js_def)
qed

text \<open>
  Claim C5 as stated fails when the overlap is more than half of the chunk size: several
  windows reach the end of the text, not only the last. Fifty letters with
  \<open>chunkSize = 60\<close> and \<open>overlap = 50\<close> give chunks of 50, 40, 30, 20 and 10 letters; the
  second chunk is not the last of its chapter, and it is too short to share 50 characters
  with the first.
\<close>

theorem chunker_overlap_counterexample:
  "(0::int) \<le> 50 \<and> (50::int) < 60 \<and>
   chunkBookContent [fiftyLetters] (Some 60) (Some 50) =
     Some (map (\<lambda>k. \<lparr> chunk_id = js ''c1-chunk-'' @ js (decimal k), chapterId = js ''c1'',
                        chapterTitle = js ''T'',
                        content = replicate (50 - 10 * k) 0x61 \<rparr>) [0, 1, 2, 3, 4]) \<and>
   \<not> overlapsBy 50 (replicate 50 (0x61 :: 16 word)) (replicate 40 0x61)"
proof -
  have h: "(0::int) \<le> 50" "(50::int) < 60" by simp_all
  have w: "chapterChunks 60 50 fiftyLetters =
      map (\<lambda>k. \<lparr> chunk_id = js ''c1-chunk-'' @ js (decimal k), chapterId = js ''c1'',
                        chapterTitle = js ''T'',
                        content = replicate (50 - 10 * k) 0x61 \<rparr>) [0, 1, 2, 3, 4]"
    by (simp add: chapterChunks_def Let_def fiftyLetters_clean windowCount_def upt5 windowAt_def)
       (simp add: fiftyLetters_def js_def)
  from chunkChapters_windows [OF h, of "[fiftyLetters]" "[]"] w
  show ?thesis by (simp add: chunkBookContent_def overlapsBy_def)
qed

section \<open>Properties: Embedding cache (services/db.ts)\<close>

lemma jsTruncate_small: "- 1 < x \<Longrightarrow> x < 1 \<Longrightarrow> jsTruncate x = 0"
  by (auto simp: jsTruncate_def floor_eq_iff ceiling_eq_iff)

lemma toInt8_small: "- 1 < x \<Longrightarrow> x < 1 \<Longrightarrow> toInt8 x = 0"
  by (simp add: toInt8_def jsTruncate_small)

lemma newInt8Array_small:
  "\<forall>x\<in>set v. - 1 < x \<and> x < 1 \<Longrightarrow> newInt8Array (Some v) = replicate (length v) 0"
  by (induction v) (simp_all add: newInt8Array_def toInt8_small)

lemma arrayFrom_zero: "arrayFrom (replicate n 0) = replicate n 0"
  by (simp add: arrayFrom_def)

lemma keyLess_trans: "keyLess a b \<Longrightarrow> keyLess b c \<Longrightarrow> keyLess a c"
  by (auto simp: keyLess_def)

lemma keyLess_total: "keyLess a b \<or> sameKey a b \<or> keyLess b a"
  by (auto simp: keyLess_def sameKey_def)

lemma keyLess_sameKey: "sameKey a b \<Longrightarrow> keyLess a c = keyLess b c"
  "sameKey a b \<Longrightarrow> keyLess c a = keyLess c b"
  by (auto simp: keyLess_def sameKey_def)

lemma set_storePut: "set (storePut r db) \<subseteq> insert r (set db)"
  by (induction db) auto

lemma storePut_ok: "store_ok db \<Longrightarrow> store_ok (storePut r db)"
proof (induction db)
  case Nil
  then show ?case by (simp add: store_ok_def)
next
  case (Cons x xs)
  then have xs: "store_ok xs" and hx: "\<forall>y\<in>set xs. keyLess x y" by (simp_all add: store_ok_def)
  show ?case
  proof (cases "sameKey r x")
    case True
    then show ?thesis using hx xs keyLess_sameKey(1) [OF True] by (simp add: store_ok_def)
  next
    case False
    show ?thesis
    proof (cases "keyLess r x")
      case True
      then have "\<forall>y\<in>set xs. keyLess r y" using hx keyLess_trans by blast
      then show ?thesis using False True Cons.prems by (simp add: store_ok_def)
    next
      case nl: False
      with False have xr: "keyLess x r" using keyLess_total [of r x] by (auto simp: sameKey_def)
      have "\<forall>y\<in>set (storePut r xs). keyLess x y"
        using set_storePut [of r xs] hx xr by auto
      then show ?thesis using False nl Cons.IH [OF xs] by (simp add: store_ok_def)
    qed
  qed
qed

subsection \<open>Reading back what was written\<close>

lemma storeGet_storePut:
  "storeGet (storePut r db) book c =
     (if bookId r = book \<and> chunkId r = c then Some r else storeGet db book c)"
  by (induction db) (auto simp: storeGet_def sameKey_def)

lemma saveEmbeddingsBatch_snoc:
  "saveEmbeddingsBatch db book (es @ [e]) mdl =
     storePut (embeddingRecord book mdl e) (saveEmbeddingsBatch db book es mdl)"
  by (simp add: saveEmbeddingsBatch_def embeddingRecord_def Let_def)

lemma saveEmbeddingsBatch_ok: "store_ok db \<Longrightarrow> store_ok (saveEmbeddingsBatch db book es mdl)"
proof (induction es rule: rev_induct)
  case Nil
  then show ?case by (simp add: saveEmbeddingsBatch_def)
next
  case (snoc e es)
  then show ?case by (simp add: saveEmbeddingsBatch_snoc storePut_ok)
qed

lemma saveEmbeddingsBatch_get:
  "storeGet (saveEmbeddingsBatch db book es mdl) book c =
     (case find (\<lambda>e. fst e = c) (rev es) of
        None \<Rightarrow> storeGet db book c
      | Some e \<Rightarrow> Some (embeddingRecord book mdl e))"
proof (induction es rule: rev_induct)
  case Nil
  show ?case by (simp add: saveEmbeddingsBatch_def)
next
  case (snoc e es)
  show ?case
    by (simp add: saveEmbeddingsBatch_snoc storeGet_storePut snoc.IH embeddingRecord_def)
qed

lemma saveEmbeddingsBatch_other_book:
  "book' \<noteq> book \<Longrightarrow>
   storeGet (saveEmbeddingsBatch db book es mdl) book' c = storeGet db book' c"
proof (induction es rule: rev_induct)
  case Nil
  show ?case by (simp add: saveEmbeddingsBatch_def)
next
  case (snoc e es)
  then show ?case
    by (simp add: saveEmbeddingsBatch_snoc storeGet_storePut embeddingRecord_def)
qed

lemma store_ok_distinct:
  assumes "store_ok db"
  shows "distinct (map chunkId (filter (\<lambda>r. bookId r = book) db))"
  using assms
proof (induction db)
  case Nil
  show ?case by simp
next
  case (Cons x xs)
  then have hx: "\<forall>y\<in>set xs. keyLess x y" and xs: "store_ok xs" by (simp_all add: store_ok_def)
  have "chunkId x \<noteq> chunkId y" if "y \<in> set xs" "bookId y = bookId x" for y
    using hx that by (auto simp: keyLess_def)
  then show ?case using Cons.IH [OF xs] by auto
qed

lemma map_of_rev_distinct: "distinct (map fst xs) \<Longrightarrow> map_of (rev xs) = map_of xs"
proof (induction xs)
  case Nil
  show ?case by simp
next
  case (Cons x xs)
  then have ih: "map_of (rev xs) = map_of xs" and nk: "map_of xs (fst x) = None"
    by (simp_all add: map_of_eq_None_iff)
  have "map_of (rev (x # xs)) k = map_of (x # xs) k" for k
    using nk by (cases x) (simp add: ih map_add_def split: option.splits)
  then show ?case by (rule ext)
qed

lemma map_of_find:
  "map_of (map (\<lambda>r. (chunkId r, f r)) (filter (\<lambda>r. bookId r = book) db)) c =
   map_option f (find (\<lambda>r. bookId r = book \<and> chunkId r = c) db)"
  by (induction db) auto

lemma getBookEmbeddings_get:
  assumes "store_ok db"
  shows "getBookEmbeddings db book c =
         map_option (\<lambda>r. arrayFrom (embedding r)) (storeGet db book c)"
proof -
  let ?l = "map (\<lambda>r. (chunkId r, arrayFrom (embedding r))) (filter (\<lambda>r. bookId r = book) db)"
  have "distinct (map fst ?l)"
    using store_ok_distinct [OF assms, of book] by (simp add: comp_def)
  then have "map_of (rev ?l) = map_of ?l" by (rule map_of_rev_distinct)
  then show ?thesis by (simp add: getBookEmbeddings_def storeGet_def map_of_find)
qed

lemma find_SomeD: "find P xs = Some x \<Longrightarrow> x \<in> set xs \<and> P x"
  by (induction xs) (auto split: if_splits)

subsection \<open>The 8-bit conversion\<close>

text \<open>
  Claim C10. The conversion to \<^verbatim>\<open>Int8Array\<close> truncates: a vector all of whose components
  lie strictly between -1 and 1 is stored as the all-zero vector of its length, and
  \<^verbatim>\<open>getBookEmbeddings\<close> gives it back as an all-zero array of that length. In a batch of
  such vectors the record under the key of a chunk is the all-zero vector of the length of
  an entry of that chunk (of the entry itself when the chunk ids of the batch are distinct),
  with \<^verbatim>\<open>dimensions\<close> that length.
\<close>

theorem int8_truncation:
  assumes ok: "store_ok db"
    and small: "\<forall>e\<in>set batch. \<exists>v. snd e = Some v \<and> (\<forall>x\<in>set v. - 1 < x \<and> x < 1)"
    and mem: "(c, Some v) \<in> set batch"
  shows "newInt8Array (Some v) = replicate (length v) 0 \<and>
         arrayFrom (newInt8Array (Some v)) = replicate (length v) 0 \<and>
         (\<exists>v'. (c, Some v') \<in> set batch \<and>
            storeGet (saveEmbeddingsBatch db book batch mdl) book c =
              Some \<lparr> bookId = book, chunkId = c, embedding = replicate (length v') 0,
                     model = mdl, dimensions = length v' \<rparr> \<and>
            getBookEmbeddings (saveEmbeddingsBatch db book batch mdl) book c =
              Some (replicate (length v') 0)) \<and>
         (distinct (map fst batch) \<longrightarrow>
            getBookEmbeddings (saveEmbeddingsBatch db book batch mdl) book c =
              Some (replicate (length v) 0))"
proof -
  from small mem have sv: "\<forall>x\<in>set v. - 1 < x \<and> x < 1" by force
  have a: "newInt8Array (Some v) = replicate (length v) 0"
    using sv by (rule newInt8Array_small)
  have b: "arrayFrom (newInt8Array (Some v)) = replicate (length v) 0"
    by (simp add: a arrayFrom_zero)
  let ?db = "saveEmbeddingsBatch db book batch mdl"
  have ok': "store_ok ?db" using ok by (rule saveEmbeddingsBatch_ok)
  from mem have "\<exists>e\<in>set (rev batch). fst e = c" by force
  then obtain e where f: "find (\<lambda>e. fst e = c) (rev batch) = Some e"
    by (cases "find (\<lambda>e. fst e = c) (rev batch)") (auto simp: find_None_iff)
  then have ein: "e \<in> set batch" and ec: "fst e = c"
    using find_SomeD [of "\<lambda>e. fst e = c" "rev batch" e] by simp_all
  with small obtain v' where v': "snd e = Some v'" "\<forall>x\<in>set v'. - 1 < x \<and> x < 1" by blast
  have e: "e = (c, Some v')" using ec v'(1) by (cases e) simp
  have z: "newInt8Array (Some v') = replicate (length v') 0"
    using v'(2) by (rule newInt8Array_small)
  have g: "storeGet ?db book c =
      Some \<lparr> bookId = book, chunkId = c, embedding = replicate (length v') 0,
             model = mdl, dimensions = length v' \<rparr>"
    by (simp add: saveEmbeddingsBatch_get f e embeddingRecord_def z)
  have h: "getBookEmbeddings ?db book c = Some (replicate (length v') 0)"
    by (simp add: getBookEmbeddings_get [OF ok'] g arrayFrom_zero)
  have d: "getBookEmbeddings ?db book c = Some (replicate (length v) 0)"
    if "distinct (map fst batch)"
  proof -
    from that mem ein e have "Some v' = Some v"
      by (metis eq_key_imp_eq_value)
    with h show ?thesis by simp
  qed
  from a b g h d ein e show ?thesis by blast
qed

theorem int8_truncation_witness:
  "store_ok [] \<and> list_all (\<lambda>e. \<exists>v. snd e = Some v \<and> list_all (\<lambda>x. - 1 < x \<and> x < 1) v) smallBatch \<and>
   distinct (map fst smallBatch) \<and>
   (js ''c1-chunk-0'', Some [1 / 2, - (3 / 10), 99 / 100]) \<in> set smallBatch \<and>
   newInt8Array (Some [1 / 2, - (3 / 10), 99 / 100]) = [0, 0, 0] \<and>
   getBookEmbeddings (saveEmbeddingsBatch [] (js ''book'') smallBatch (Some (js ''m'')))
     (js ''book'') (js ''c1-chunk-0'') = Some [0, 0, 0]"
proof -
  have ok: "store_ok []" by (simp add: store_ok_def)
  have small: "\<forall>e\<in>set smallBatch. \<exists>v. snd e = Some v \<and> (\<forall>x\<in>set v. - 1 < x \<and> x < 1)"
    by (simp add: smallBatch_def)
  have mem: "(js ''c1-chunk-0'', Some [1 / 2, - (3 / 10), 99 / 100]) \<in> set smallBatch"
    by (simp add: smallBatch_def)
  have di: "distinct (map fst smallBatch)"
    by (simp add: smallBatch_def js_def)
  from int8_truncation [OF ok small mem, of "js ''book''" "Some (js ''m'')"] di ok small mem
  show ?thesis by (simp add: list_all_iff numeral_3_eq_3)
qed

section \<open>Properties: Provider calls (services/ai.ts)\<close>

subsection \<open>The retry policy\<close>

lemma fetchLoop_step:
  assumes "i < n"
  shows "fetchLoop w mdl input n i lastError st =
     (let outcome = fetchResult w (fetchCount st);
          st1 = st\<lparr> fetchCount := fetchCount st + 1,
                    effects := effects st @ [Fetch mdl input] \<rparr>;
          st2 = st1\<lparr> randomCount := randomCount st + 1,
                     effects := effects st1 @
                       [Sleep (2 ^ i * 1000 + randomValue w (randomCount st) * 1000)] \<rparr>
      in if retried outcome
         then fetchLoop w mdl input n (i + 1) (lastErrorAfter lastError outcome) st2
         else (st1, Inr (responseOf outcome)))"
  using assms
  by (subst fetchLoop.simps)
     (auto simp: Let_def retried_def responseOf_def lastErrorAfter_def split: fetch_outcome.splits)

lemma fetchLoop_done:
  "\<not> i < n \<Longrightarrow> fetchLoop w mdl input n i lastError st =
     (st, Inl (case lastError of
                 Some e \<Rightarrow> e
               | None \<Rightarrow> JsError ''Error'' (''Fetch failed after '' @ decimal n @ '' retries'')))"
  by (subst fetchLoop.simps) simp

lemma thrownAfter_three:
  "(case lastErrorAfter (lastErrorAfter (lastErrorAfter None a) b) c of
      Some e \<Rightarrow> e
    | None \<Rightarrow> JsError ''Error'' (''Fetch failed after '' @ decimal 3 @ '' retries'')) =
   thrownAfter 3 [a, b, c]"
  by (cases a; cases b; cases c) (simp_all add: lastErrorAfter_def thrownAfter_def)

lemma upt3: "[0..<3] = [0, 1, 2]" and upt2: "[0..<2] = [0, 1]"
  by (simp_all add: upt_rec)

text \<open>
  Claim C8. With the default \<^verbatim>\<open>maxRetries = 3\<close>, \<^verbatim>\<open>fetchWithRetry\<close> calls \<^verbatim>\<open>fetch\<close> at
  most three times. An attempt \<open>k\<close> (counted from 0) that is rejected or answers 5xx or 429
  is followed by a wait of \<open>2\<^sup>k * 1000 + Math.random() * 1000\<close> ms, which lies between
  \<open>2\<^sup>k * 1000\<close> and \<open>2\<^sup>k * 1000 + 1000\<close>, and then by the next attempt if fewer than
  three were made, else by the error. Any other response, so every 4xx other than 429, is
  returned at once, with no wait and no further attempt.
\<close>

theorem fetch_retry_policy:
  "fetchWithRetry w mdl input None st =
     (if \<not> retried (outcomeAt w st 0) then
        (afterFetches w mdl input st 1 0, Inr (responseOf (outcomeAt w st 0)))
      else if \<not> retried (outcomeAt w st 1) then
        (afterFetches w mdl input st 2 1, Inr (responseOf (outcomeAt w st 1)))
      else if \<not> retried (outcomeAt w st 2) then
        (afterFetches w mdl input st 3 2, Inr (responseOf (outcomeAt w st 2)))
      else
        (afterFetches w mdl input st 3 3,
         Inl (thrownAfter 3 [outcomeAt w st 0, outcomeAt w st 1, outcomeAt w st 2]))) \<and>
   effects (afterFetches w mdl input st 3 3) =
     effects st @ [Fetch mdl input, Sleep (delayAt w st 0), Fetch mdl input,
                   Sleep (delayAt w st 1), Fetch mdl input, Sleep (delayAt w st 2)] \<and>
   effects (afterFetches w mdl input st 2 1) =
     effects st @ [Fetch mdl input, Sleep (delayAt w st 0), Fetch mdl input] \<and>
   (400 \<le> status \<and> status < 500 \<and> status \<noteq> 429 \<longrightarrow>
      \<not> retried (HttpResponse status data) \<and>
      responseOf (HttpResponse status data) = (status, data)) \<and>
   (500 \<le> status \<or> status = 429 \<longrightarrow> retried (HttpResponse status data)) \<and>
   (0 \<le> randomValue w (randomCount st + k) \<and> randomValue w (randomCount st + k) < 1 \<longrightarrow>
      2 ^ k * 1000 \<le> delayAt w st k \<and> delayAt w st k < 2 ^ k * 1000 + 1000)"
proof -
  have a: "fetchWithRetry w mdl input None st =
     (if \<not> retried (outcomeAt w st 0) then
        (afterFetches w mdl input st 1 0, Inr (responseOf (outcomeAt w st 0)))
      else if \<not> retried (outcomeAt w st 1) then
        (afterFetches w mdl input st 2 1, Inr (responseOf (outcomeAt w st 1)))
      else if \<not> retried (outcomeAt w st 2) then
        (afterFetches w mdl input st 3 2, Inr (responseOf (outcomeAt w st 2)))
      else
        (afterFetches w mdl input st 3 3,
         Inl (thrownAfter 3 [outcomeAt w st 0, outcomeAt w st 1, outcomeAt w st 2])))"
    by (simp add: fetchWithRetry_def fetchLoop_step fetchLoop_done Let_def outcomeAt_def
        afterFetches_def delayAt_def upt3 upt2 thrownAfter_three)
  have b: "effects (afterFetches w mdl input st 3 3) =
     effects st @ [Fetch mdl input, Sleep (delayAt w st 0), Fetch mdl input,
                   Sleep (delayAt w st 1), Fetch mdl input, Sleep (delayAt w st 2)]"
    "effects (afterFetches w mdl input st 2 1) =
     effects st @ [Fetch mdl input, Sleep (delayAt w st 0), Fetch mdl input]"
    by (simp_all add: afterFetches_def upt3 upt2)
  have c: "400 \<le> status \<and> status < 500 \<and> status \<noteq> 429 \<longrightarrow>
      \<not> retried (HttpResponse status data) \<and>
      responseOf (HttpResponse status data) = (status, data)"
    by (simp add: retried_def responseOf_def)
  have d: "500 \<le> status \<or> status = 429 \<longrightarrow> retried (HttpResponse status data)"
    by (auto simp: retried_def responseOk_def)
  have e: "0 \<le> randomValue w (randomCount st + k) \<and> randomValue w (randomCount st + k) < 1 \<longrightarrow>
      2 ^ k * 1000 \<le> delayAt w st k \<and> delayAt w st k < 2 ^ k * 1000 + 1000"
    by (simp add: delayAt_def)
  from a b c d e show ?thesis by blast
qed

section \<open>Properties: Embedding pipeline (services/rag.ts)\<close>

lemma extends_refl: "extends st st"
  by (simp add: extends_def)

lemma extends_trans:
  assumes "extends a b" "extends b c"
  shows "extends a c"
proof -
  from assms obtain r1 r2 where
    r1: "effects b = effects a @ r1" "\<forall>x. DbClear x \<notin> set r1" and
    r2: "effects c = effects b @ r2" "\<forall>x. DbClear x \<notin> set r2"
    unfolding extends_def by blast
  then have "effects c = effects a @ (r1 @ r2) \<and> (\<forall>x. DbClear x \<notin> set (r1 @ r2))" by simp
  then show ?thesis using assms unfolding extends_def by metis
qed

lemma fetchLoop_extends: "extends st (fst (fetchLoop w mdl input n i lastError st))"
proof (induction "n - i" arbitrary: i lastError st)
  case 0
  then have "\<not> i < n" by simp
  then show ?case by (simp add: fetchLoop_done extends_refl)
next
  case (Suc d)
  then have lt: "i < n" and d: "d = n - (i + 1)" by simp_all
  let ?st1 = "st\<lparr>fetchCount := fetchCount st + 1, effects := effects st @ [Fetch mdl input]\<rparr>"
  let ?st2 = "?st1\<lparr>randomCount := randomCount st + 1,
                effects := effects ?st1 @
                  [Sleep (2 ^ i * 1000 + randomValue w (randomCount st) * 1000)]\<rparr>"
  have e1: "extends st ?st1" and e2: "extends st ?st2" by (simp_all add: extends_def)
  show ?case
  proof (cases "retried (fetchResult w (fetchCount st))")
    case True
    have "extends ?st2 (fst (fetchLoop w mdl input n (i + 1)
            (lastErrorAfter lastError (fetchResult w (fetchCount st))) ?st2))"
      using d by (rule Suc.hyps(1))
    with e2 have "extends st (fst (fetchLoop w mdl input n (i + 1)
            (lastErrorAfter lastError (fetchResult w (fetchCount st))) ?st2))"
      by (rule extends_trans)
    then show ?thesis using True by (simp add: fetchLoop_step [OF lt] Let_def)
  next
    case False
    then show ?thesis using e1 by (simp add: fetchLoop_step [OF lt] Let_def)
  qed
qed

lemma fetchWithRetry_extends: "extends st (fst (fetchWithRetry w mdl input m st))"
  by (simp add: fetchWithRetry_def fetchLoop_extends)

lemma getBatchLoop_extends: "extends st (fst (getBatchLoop w config texts results st))"
proof (induction "length texts" arbitrary: texts results st rule: less_induct)
  case less
  show ?case
  proof (cases "texts = []")
    case True
    then show ?thesis by (subst getBatchLoop.simps) (simp add: extends_refl)
  next
    case False
    define batch where "batch = map (take 8000) (take 2048 texts)"
    define mdl where "mdl = (if embeddingModel config \<noteq> [] then embeddingModel config
                   else js ''text-embedding-3-small'')"
    obtain st1 r where f: "fetchWithRetry w mdl batch None st = (st1, r)"
      by (cases "fetchWithRetry w mdl batch None st")
    have e1: "extends st st1"
      using fetchWithRetry_extends [of st w mdl batch None] f by simp
    have sh: "length (drop 2048 texts) < length texts" using False by simp
    have un: "getBatchLoop w config texts results st =
       (case r of
          Inl e \<Rightarrow> (st1, Inl e)
        | Inr (status, data) \<Rightarrow>
            if \<not> responseOk status
            then (st1, Inl (AppError API_ERROR (''Embedding API Error: '' @ decimal status)
                              (status = 429 \<or> status \<ge> 500)))
            else getBatchLoop w config (drop 2048 texts) (results @ data) st1)"
      using False
      by (subst getBatchLoop.simps)
         (simp add: Let_def batch_def [symmetric] mdl_def [symmetric] f)
    show ?thesis
    proof (cases r)
      case (Inl e)
      then show ?thesis using e1 by (simp add: un)
    next
      case (Inr p)
      obtain status data where p: "p = (status, data)" by (cases p)
      show ?thesis
      proof (cases "responseOk status")
        case False
        then show ?thesis using e1 Inr p by (simp add: un)
      next
        case True
        have "extends st1 (fst (getBatchLoop w config (drop 2048 texts) (results @ data) st1))"
          using sh by (rule less)
        with e1 have "extends st (fst (getBatchLoop w config (drop 2048 texts) (results @ data) st1))"
          by (rule extends_trans)
        then show ?thesis using Inr p True by (simp add: un)
      qed
    qed
  qed
qed

lemma getBatchEmbeddings_extends: "extends st (fst (getBatchEmbeddings w config texts st))"
  by (simp add: getBatchEmbeddings_def getBatchLoop_extends)

lemma batchLoop_extends:
  "extends st (fst (batchLoop w config chunkCount uncachedCount remaining i st sem new))"
proof (induction "length remaining" arbitrary: remaining i st sem new rule: less_induct)
  case less
  show ?case
  proof (cases "remaining = []")
    case True
    then show ?thesis by (subst batchLoop.simps) (simp add: extends_refl)
  next
    case False
    define batch where "batch = take 50 remaining"
    define texts where "texts = map (\<lambda>b. content (snd b)) batch"
    obtain st1 r where g: "getBatchEmbeddings w config texts st = (st1, r)"
      by (cases "getBatchEmbeddings w config texts st")
    have e1: "extends st st1"
      using getBatchEmbeddings_extends [of st w config texts] g by simp
    have sh: "length (drop 50 remaining) < length remaining" using False by simp
    have un: "batchLoop w config chunkCount uncachedCount remaining i st sem new =
       (case r of
          Inr vecs \<Rightarrow>
            (case attachBatch vecs batch 0 (ragClient st1, sem, new) of
               (cl, sem', new') \<Rightarrow>
                 batchLoop w config chunkCount uncachedCount (drop 50 remaining) (i + 50)
                   (st1\<lparr> ragClient := cl,
                         effects := effects st1 @
                           [Progress (chunkCount - uncachedCount + i + length batch) chunkCount] \<rparr>)
                   sem' new')
        | Inl e \<Rightarrow>
            if errorCode (appErrorFrom e) = Some API_ERROR then (st1, Inl (appErrorFrom e))
            else batchLoop w config chunkCount uncachedCount (drop 50 remaining) (i + 50)
                   st1 sem new)"
      using False
      by (subst batchLoop.simps)
         (simp add: Let_def batch_def [symmetric] texts_def [symmetric] g)
    show ?thesis
    proof (cases r)
      case (Inl e)
      show ?thesis
      proof (cases "errorCode (appErrorFrom e) = Some API_ERROR")
        case True
        then show ?thesis using e1 Inl by (simp add: un)
      next
        case False
        have "extends st1 (fst (batchLoop w config chunkCount uncachedCount (drop 50 remaining)
                 (i + 50) st1 sem new))"
          using sh by (rule less)
        with e1 show ?thesis using Inl False by (simp add: un extends_trans)
      qed
    next
      case (Inr vecs)
      obtain cl sem' new' where a: "attachBatch vecs batch 0 (ragClient st1, sem, new) = (cl, sem', new')"
        by (cases "attachBatch vecs batch 0 (ragClient st1, sem, new)")
      let ?st2 = "st1\<lparr> ragClient := cl,
                         effects := effects st1 @
                           [Progress (chunkCount - uncachedCount + i + length batch) chunkCount] \<rparr>"
      have e2: "extends st1 ?st2" by (simp add: extends_def)
      have "extends ?st2 (fst (batchLoop w config chunkCount uncachedCount (drop 50 remaining)
                 (i + 50) ?st2 sem' new'))"
        using sh by (rule less)
      with e1 e2 show ?thesis using Inr a by (simp add: un) (blast intro: extends_trans)
    qed
  qed
qed

lemma set_saveEmbeddingsBatch:
  "set (saveEmbeddingsBatch db book es mdl) \<subseteq> set db \<union> embeddingRecord book mdl ` set es"
proof (induction es rule: rev_induct)
  case Nil
  show ?case by (simp add: saveEmbeddingsBatch_def)
next
  case (snoc e es)
  have "set (saveEmbeddingsBatch db book (es @ [e]) mdl)
          \<subseteq> insert (embeddingRecord book mdl e) (set (saveEmbeddingsBatch db book es mdl))"
    by (simp add: saveEmbeddingsBatch_snoc set_storePut)
  with snoc show ?case by auto
qed

lemma validateIndex_stale:
  assumes "getEmbeddingMetadata (embeddings st) book = Some (Some m, dims)"
    and "m \<noteq> []" "embeddingModel config \<noteq> []" "m \<noteq> embeddingModel config"
  shows "validateIndex st book config =
           (st\<lparr>effects := effects st @ [DbGetMeta book]\<rparr>,
            \<lparr>valid = False,
             reason = Some (js ''Model mismatch: index='' @ m @ js '', config=''
                             @ embeddingModel config)\<rparr>)"
  using assms by (simp add: validateIndex_def Let_def)

lemma validateIndex_fresh:
  "getEmbeddingMetadata (embeddings st) book = None \<Longrightarrow>
   validateIndex st book config =
     (st\<lparr>effects := effects st @ [DbGetMeta book]\<rparr>, \<lparr>valid = True, reason = None\<rparr>)"
  by (simp add: validateIndex_def Let_def)

subsection \<open>The staleness rule\<close>

lemma validateIndex_state:
  "fst (validateIndex st book config) = st\<lparr>effects := effects st @ [DbGetMeta book]\<rparr>"
  by (simp add: validateIndex_def Let_def split: option.splits)

lemma validateIndex_same:
  assumes "getEmbeddingMetadata (embeddings st) book = Some (stored, dims)"
    and "stored = None \<or> stored = Some [] \<or> embeddingModel config = [] \<or>
         stored = Some (embeddingModel config)"
  shows "snd (validateIndex st book config) = \<lparr>valid = True, reason = None\<rparr>"
  using assms by (auto simp: validateIndex_def Let_def split: option.splits)

text \<open>
  A run of the pipeline: the metadata is read, the records of the book are cleared when the
  index is not valid, the cache is read, and from then on nothing is cleared; the store at
  the end is the store after that first step with the vectors of this run saved into it.
\<close>

lemma indexChunks_trace:
  "\<exists>rest new.
     effects (fst (indexChunksWithEmbeddings w chunks config book st)) =
       effects st @ DbGetMeta book #
         (if valid (snd (validateIndex st book config)) then [] else [DbClear book]) @
         DbGetAll book # rest \<and>
     (\<forall>b. DbClear b \<notin> set rest) \<and>
     embeddings (fst (indexChunksWithEmbeddings w chunks config book st)) =
       saveEmbeddingsBatch
         (if valid (snd (validateIndex st book config)) then embeddings st
          else clearBookEmbeddings (embeddings st) book)
         book new (Some (embeddingModel config))"
proof -
  define vd where "vd = snd (validateIndex st book config)"
  have v: "validateIndex st book config = (st\<lparr>effects := effects st @ [DbGetMeta book]\<rparr>, vd)"
    using validateIndex_state [of st book config] by (simp add: vd_def prod_eq_iff)
  define base where "base = (if valid vd then embeddings st
                             else clearBookEmbeddings (embeddings st) book)"
  define pre where "pre = DbGetMeta book # (if valid vd then [] else [DbClear book]) @
                          [DbGetAll book]"
  define st3 where "st3 = st\<lparr>embeddings := base, effects := effects st @ pre\<rparr>"
  define persisted where "persisted = (if loadFails w then Map.empty
      else getBookEmbeddings base book)"
  obtain cl sem uncached where
    p: "partitionChunks persisted chunks 0 (ragClient st, [], []) = (cl, sem, uncached)"
    by (cases "partitionChunks persisted chunks 0 (ragClient st, [], [])")
  obtain st4 r4 where
    b: "batchLoop w config (length chunks) (length uncached) uncached 0 (st3\<lparr>ragClient := cl\<rparr>) sem []
          = (st4, r4)"
    by (cases "batchLoop w config (length chunks) (length uncached) uncached 0
                 (st3\<lparr>ragClient := cl\<rparr>) sem []")
  have ex: "extends (st3\<lparr>ragClient := cl\<rparr>) st4"
    using batchLoop_extends [of "st3\<lparr>ragClient := cl\<rparr>" w config "length chunks"
        "length uncached" uncached 0 sem "[]"] b by simp
  then obtain rest where e4: "embeddings st4 = base"
    and f4: "effects st4 = effects st @ pre @ rest" and nc: "\<forall>b. DbClear b \<notin> set rest"
    unfolding extends_def by (auto simp: st3_def)
  have unfolded: "indexChunksWithEmbeddings w chunks config book st =
     (case r4 of
        Inl e \<Rightarrow> (st4, Inl e)
      | Inr (sem', newEmbeddings) \<Rightarrow>
          if newEmbeddings \<noteq> []
          then (st4\<lparr> embeddings := saveEmbeddingsBatch (embeddings st4) book newEmbeddings
                                     (Some (embeddingModel config)),
                     effects := effects st4 @ [DbSave book (length newEmbeddings)] \<rparr>, Inr sem')
          else (st4, Inr sem'))"
    using p b
    by (cases "loadFails w"; cases "valid vd")
       (simp_all add: indexChunksWithEmbeddings_def v Let_def persisted_def st3_def base_def
          pre_def)
  have nosave: "saveEmbeddingsBatch db book [] mdl = db" for db mdl
    by (simp add: saveEmbeddingsBatch_def)
  have pre: "effects st @ pre @ r = effects st @ DbGetMeta book #
         (if valid vd then [] else [DbClear book]) @ DbGetAll book # r" for r
    by (simp add: pre_def)
  have same: "\<exists>rest new.
     effects st4 = effects st @ DbGetMeta book #
         (if valid vd then [] else [DbClear book]) @ DbGetAll book # rest \<and>
     (\<forall>b. DbClear b \<notin> set rest) \<and>
     embeddings st4 = saveEmbeddingsBatch base book new (Some (embeddingModel config))"
    using f4 nc e4 nosave pre by metis
  have ?thesis if "fst (indexChunksWithEmbeddings w chunks config book st) = st4"
    using same that by (simp add: vd_def base_def)
  moreover have ?thesis
    if s: "fst (indexChunksWithEmbeddings w chunks config book st) =
           st4\<lparr> embeddings := saveEmbeddingsBatch (embeddings st4) book new
                                     (Some (embeddingModel config)),
                 effects := effects st4 @ [DbSave book (length new)] \<rparr>" for new
  proof -
    have "effects (fst (indexChunksWithEmbeddings w chunks config book st)) =
          effects st @ DbGetMeta book #
            (if valid vd then [] else [DbClear book]) @ DbGetAll book #
            (rest @ [DbSave book (length new)])"
      by (simp add: s f4 pre_def)
    moreover have "\<forall>b. DbClear b \<notin> set (rest @ [DbSave book (length new)])"
      using nc by simp
    moreover have "embeddings (fst (indexChunksWithEmbeddings w chunks config book st)) =
          saveEmbeddingsBatch base book new (Some (embeddingModel config))"
      by (simp add: s e4)
    ultimately show ?thesis unfolding vd_def base_def by blast
  qed
  ultimately show ?thesis
    using unfolded by (auto split: sum.splits prod.splits if_splits)
qed

text \<open>
  Claim C7 (as amended). \<^verbatim>\<open>validateIndex\<close> answers valid when the book has no embedding
  record. When the first record of the book has a stored model that is not empty, the
  configured embedding model is not empty, and the two differ, it answers invalid, and a run
  of the pipeline then clears the records of the book right after reading the metadata,
  before anything else and so before any call of the provider: the store at the end of the
  run is the cleared store, in which the book has no record, with the vectors of this run
  saved into it, and every record of the book carries the configured model. When the book
  has a record and the stored model is absent or empty, or the configured model is empty, or
  the two are equal, \<^verbatim>\<open>validateIndex\<close> answers valid; and whenever it answers valid, a run
  of the pipeline clears nothing: the cache is read right after the metadata, no effect of
  the run is a clearing, and the store at the end is the store of the start with the
  vectors of this run saved into it.
\<close>

theorem stale_cache_cleared:
  assumes meta: "getEmbeddingMetadata (embeddings st) book = Some (Some m, dims)"
    and ne: "m \<noteq> []" "embeddingModel config \<noteq> []" and diff: "m \<noteq> embeddingModel config"
    and run: "indexChunksWithEmbeddings w chunks config book st = (st', r)"
  shows "valid (snd (validateIndex st book config)) = False \<and>
         (\<exists>rest. effects st' = effects st @ [DbGetMeta book, DbClear book] @ rest) \<and>
         (\<exists>new. embeddings st' =
            saveEmbeddingsBatch (clearBookEmbeddings (embeddings st) book) book new
              (Some (embeddingModel config))) \<and>
         (\<forall>x\<in>set (clearBookEmbeddings (embeddings st) book). bookId x \<noteq> book) \<and>
         (\<forall>x\<in>set (embeddings st'). bookId x = book \<longrightarrow> model x = Some (embeddingModel config)) \<and>
         (getEmbeddingMetadata (embeddings st0) book = None \<longrightarrow>
            snd (validateIndex st0 book config0) = \<lparr>valid = True, reason = None\<rparr>) \<and>
         (\<forall>stored dims0.
            getEmbeddingMetadata (embeddings st0) book = Some (stored, dims0) \<and>
            (stored = None \<or> stored = Some [] \<or> embeddingModel config0 = [] \<or>
             stored = Some (embeddingModel config0)) \<longrightarrow>
            snd (validateIndex st0 book config0) = \<lparr>valid = True, reason = None\<rparr>) \<and>
         (valid (snd (validateIndex st0 book config0)) \<longrightarrow>
            (\<exists>rest new.
               effects (fst (indexChunksWithEmbeddings w0 chunks0 config0 book st0)) =
                 effects st0 @ [DbGetMeta book, DbGetAll book] @ rest \<and>
               (\<forall>b. DbClear b \<notin> set rest) \<and>
               embeddings (fst (indexChunksWithEmbeddings w0 chunks0 config0 book st0)) =
                 saveEmbeddingsBatch (embeddings st0) book new (Some (embeddingModel config0))))"
proof -
  note v = validateIndex_stale [OF meta ne diff]
  have a: "valid (snd (validateIndex st book config)) = False" by (simp add: v)
  from indexChunks_trace [of w chunks config book st] obtain rest new where
    f: "effects st' = effects st @ DbGetMeta book # [DbClear book] @ DbGetAll book # rest"
    and e: "embeddings st' =
       saveEmbeddingsBatch (clearBookEmbeddings (embeddings st) book) book new
         (Some (embeddingModel config))"
    using run a by auto
  have b: "\<exists>rest. effects st' = effects st @ [DbGetMeta book, DbClear book] @ rest"
    using f by simp
  have c: "\<exists>new. embeddings st' =
            saveEmbeddingsBatch (clearBookEmbeddings (embeddings st) book) book new
              (Some (embeddingModel config))"
    using e by blast
  have cleared: "\<forall>x\<in>set (clearBookEmbeddings (embeddings st) book). bookId x \<noteq> book"
    by (simp add: clearBookEmbeddings_def)
  have d: "model x = Some (embeddingModel config)"
    if "x \<in> set (embeddings st')" "bookId x = book" for x
  proof -
    from that(1) have "x \<in> set (clearBookEmbeddings (embeddings st) book) \<or>
        x \<in> embeddingRecord book (Some (embeddingModel config)) ` set new"
      using set_saveEmbeddingsBatch [of "clearBookEmbeddings (embeddings st) book" book new
          "Some (embeddingModel config)"]
      by (auto simp: e)
    then consider "x \<in> set (clearBookEmbeddings (embeddings st) book)"
      | y where "x = embeddingRecord book (Some (embeddingModel config)) y"
      by blast
    then show ?thesis
    proof cases
      case 1
      with cleared that(2) show ?thesis by blast
    next
      case 2
      show ?thesis by (subst 2) (simp add: embeddingRecord_def)
    qed
  qed
  have fresh: "getEmbeddingMetadata (embeddings st0) book = None \<longrightarrow>
            snd (validateIndex st0 book config0) = \<lparr>valid = True, reason = None\<rparr>"
    by (simp add: validateIndex_fresh)
  have same: "\<forall>stored dims0.
            getEmbeddingMetadata (embeddings st0) book = Some (stored, dims0) \<and>
            (stored = None \<or> stored = Some [] \<or> embeddingModel config0 = [] \<or>
             stored = Some (embeddingModel config0)) \<longrightarrow>
            snd (validateIndex st0 book config0) = \<lparr>valid = True, reason = None\<rparr>"
    using validateIndex_same by blast
  have keep: "valid (snd (validateIndex st0 book config0)) \<longrightarrow>
            (\<exists>rest new.
               effects (fst (indexChunksWithEmbeddings w0 chunks0 config0 book st0)) =
                 effects st0 @ [DbGetMeta book, DbGetAll book] @ rest \<and>
               (\<forall>b. DbClear b \<notin> set rest) \<and>
               embeddings (fst (indexChunksWithEmbeddings w0 chunks0 config0 book st0)) =
                 saveEmbeddingsBatch (embeddings st0) book new (Some (embeddingModel config0)))"
    using indexChunks_trace [of w0 chunks0 config0 book st0] by auto
  from a b c cleared d fresh same keep show ?thesis by blast
qed

subsection \<open>Scenarios\<close>

text \<open>A provider that answers 503, then 429, then 404, with \<^verbatim>\<open>Math.random()\<close> at 0.5.\<close>

theorem fetch_retry_policy_witness:
  "(400::nat) \<le> 404 \<and> (404::nat) < 500 \<and> (404::nat) \<noteq> 429 \<and> (500::nat) \<le> 503 \<and>
   0 \<le> randomValue flakyProvider 0 \<and> randomValue flakyProvider 0 < 1 \<and>
   retried (HttpResponse 503 []) \<and> \<not> retried (HttpResponse 404 []) \<and>
   delayAt flakyProvider idleRuntime 0 = 1500 \<and> delayAt flakyProvider idleRuntime 1 = 2500 \<and>
   effects (fst (fetchWithRetry flakyProvider (js ''B'') [js ''text''] None idleRuntime)) =
     [Fetch (js ''B'') [js ''text''], Sleep 1500, Fetch (js ''B'') [js ''text''], Sleep 2500,
      Fetch (js ''B'') [js ''text'']] \<and>
   snd (fetchWithRetry flakyProvider (js ''B'') [js ''text''] None idleRuntime) = Inr (404, [])"
proof -
  have o: "outcomeAt flakyProvider idleRuntime 0 = HttpResponse 503 []"
    "outcomeAt flakyProvider idleRuntime 1 = HttpResponse 429 []"
    "outcomeAt flakyProvider idleRuntime 2 = HttpResponse 404 []"
    by (simp_all add: outcomeAt_def flakyProvider_def idleRuntime_def)
  have r: "retried (HttpResponse 503 [])" "retried (HttpResponse 429 [])"
    "\<not> retried (HttpResponse 404 [])"
    by (simp_all add: retried_def responseOk_def)
  have d: "delayAt flakyProvider idleRuntime 0 = 1500" "delayAt flakyProvider idleRuntime 1 = 2500"
    by (simp_all add: delayAt_def flakyProvider_def)
  have d1: "delayAt flakyProvider idleRuntime (Suc 0) = 2500"
    using d(2) by simp
  have i: "effects idleRuntime = []" by (simp add: idleRuntime_def)
  have rv: "randomValue flakyProvider 0 = 1 / 2" by (simp add: flakyProvider_def)
  have e: "effects (afterFetches flakyProvider (js ''B'') [js ''text''] idleRuntime 3 2) =
     [Fetch (js ''B'') [js ''text''], Sleep 1500, Fetch (js ''B'') [js ''text''], Sleep 2500,
      Fetch (js ''B'') [js ''text'']]"
    by (simp add: afterFetches_def upt3 d d1 i)
  have o1: "outcomeAt flakyProvider idleRuntime (Suc 0) = HttpResponse 429 []"
    using o(2) by simp
  from fetch_retry_policy [of flakyProvider "js ''B''" "[js ''text'']" idleRuntime 404 "[]" 0]
  show ?thesis
    by (simp add: o o1 r d d1 e rv responseOf_def)
qed

lemma staleRuntime_meta:
  "getEmbeddingMetadata (embeddings staleRuntime) (js ''book'') = Some (Some (js ''A''), 2)"
  by (simp add: staleRuntime_def idleRuntime_def staleStore_def getEmbeddingMetadata_def)

text \<open>A cache written with model \<open>A\<close>, a pipeline configured with model \<open>B\<close>.\<close>

theorem stale_cache_cleared_witness:
  "getEmbeddingMetadata (embeddings staleRuntime) (js ''book'') = Some (Some (js ''A''), 2) \<and>
   js ''A'' \<noteq> [] \<and> embeddingModel configB \<noteq> [] \<and> js ''A'' \<noteq> embeddingModel configB \<and>
   valid (snd (validateIndex staleRuntime (js ''book'') configB)) = False \<and>
   take 2 (effects (fst (indexChunksWithEmbeddings goodProvider oneChunk configB (js ''book'')
              staleRuntime))) = [DbGetMeta (js ''book''), DbClear (js ''book'')] \<and>
   list_all (\<lambda>x. model x = Some (js ''B''))
     (embeddings (fst (indexChunksWithEmbeddings goodProvider oneChunk configB (js ''book'')
              staleRuntime)))"
proof -
  have n: "js ''A'' \<noteq> []" "embeddingModel configB \<noteq> []" "js ''A'' \<noteq> embeddingModel configB"
    by (simp_all add: js_def configB_def)
  have run: "indexChunksWithEmbeddings goodProvider oneChunk configB (js ''book'') staleRuntime =
     (fst (indexChunksWithEmbeddings goodProvider oneChunk configB (js ''book'') staleRuntime),
      snd (indexChunksWithEmbeddings goodProvider oneChunk configB (js ''book'') staleRuntime))"
    by simp
  have ev: "fst (indexChunksWithEmbeddings goodProvider oneChunk configB (js ''book'') staleRuntime) =
     \<lparr> embeddings = [\<lparr> bookId = js ''book'', chunkId = js ''c1-chunk-0'', embedding = [0, 0],
                        model = Some (js ''B''), dimensions = 2 \<rparr>],
       ragClient = send ''INDEX_CHUNK''
                     \<lparr> payload_id = js ''c1-chunk-0'', payload_content = js ''some text'',
                       payload_embedding = Some [1 / 2, 1 / 4] \<rparr> (newClient (Some 60000) None),
       fetchCount = 1, randomCount = 0,
       effects = [DbGetMeta (js ''book''), DbClear (js ''book''), DbGetAll (js ''book''),
                  Fetch (js ''B'') [js ''some text''], Progress 1 1, DbSave (js ''book'') 1] \<rparr>"
    by (simp add: indexChunksWithEmbeddings_def validateIndex_def Let_def staleRuntime_def
        idleRuntime_def staleStore_def getEmbeddingMetadata_def configB_def goodProvider_def
        clearBookEmbeddings_def getBookEmbeddings_def oneChunk_def batchLoop.simps
        getBatchEmbeddings_def getBatchLoop.simps fetchWithRetry_def fetchLoop.simps responseOk_def
        nth_opt_def semanticChunk_def saveEmbeddingsBatch_def newInt8Array_def toInt8_def
        jsTruncate_def js_def)
  have cb: "embeddingModel configB = js ''B''" by (simp add: configB_def)
  from stale_cache_cleared [OF staleRuntime_meta n run] n staleRuntime_meta
  show ?thesis
    by (simp add: ev cb)
qed

text \<open>
  Claim C7 as stated fails when the configured embedding model is the empty string (the
  provider call then falls back to \<^verbatim>\<open>text-embedding-3-small\<close>): the stored model \<open>A\<close>
  differs from it, yet \<^verbatim>\<open>validateIndex\<close> answers valid and the pipeline clears nothing.
\<close>

theorem stale_check_counterexample:
  "getEmbeddingMetadata (embeddings staleRuntime) (js ''book'') = Some (Some (js ''A''), 2) \<and>
   js ''A'' \<noteq> embeddingModel configEmpty \<and>
   snd (validateIndex staleRuntime (js ''book'') configEmpty) = \<lparr>valid = True, reason = None\<rparr> \<and>
   effects (fst (indexChunksWithEmbeddings goodProvider [] configEmpty (js ''book'') staleRuntime))
     = [DbGetMeta (js ''book''), DbGetAll (js ''book'')] \<and>
   embeddings (fst (indexChunksWithEmbeddings goodProvider [] configEmpty (js ''book'') staleRuntime))
     = staleStore"
  by (simp add: staleRuntime_meta)
     (simp add: indexChunksWithEmbeddings_def validateIndex_def Let_def staleRuntime_def
        idleRuntime_def staleStore_def getEmbeddingMetadata_def configEmpty_def batchLoop.simps
        js_def)

end
